theory Spec2Isabelle
  imports Main "HOL-Library.Monad_Syntax"
begin

section \<open>Data model\<close>

text \<open>
  \<^verbatim>\<open>PooledMap<Key, Value>\<close> is a red-black tree whose nodes live in an object pool and
  point at each other through raw \<^verbatim>\<open>left\<close>, \<^verbatim>\<open>right\<close> and \<^verbatim>\<open>parent\<close> pointers.
  A pointer is a slot number or \<^verbatim>\<open>nullptr\<close> (\<open>None\<close>); the memory is a partial map from
  slot numbers to nodes. Every operation runs in the option monad with the map state
  passed explicitly: \<open>None\<close> is a read or write through a null or recycled pointer
  (undefined behaviour in C++), or a loop that never returns.

  \<^verbatim>\<open>Key\<close> is a linear order (\<^verbatim>\<open>==\<close> is equality, \<^verbatim>\<open><\<close> the order), \<^verbatim>\<open>Value()\<close> is
  \<^term>\<open>default\<close>. The counter \<^verbatim>\<open>size_\<close> is a \<^verbatim>\<open>std::size_t\<close>; it counts live nodes, each of
  which occupies memory of its own, so it is modelled as a natural number.
\<close>

datatype color = RED | BLACK

type_synonym ptr = "nat option"

record ('k, 'v) node =
  key :: 'k
  val :: 'v
  left :: ptr
  right :: ptr
  parent :: ptr
  color :: color

text \<open>
  Modelled from the spec: \<^verbatim>\<open>SegmentedObjectPool.hpp\<close> (the pool behind
  \<^verbatim>\<open>PooledObject<Node>::create\<close> and \<^verbatim>\<open>recycle\<close>) is not part of the sources. The spec gives
  a free list of recycled slots handed out most-recently-freed first, segments of a fixed
  number of slots, and bump allocation inside the newest segment. Slots are numbered in
  allocation order, so slot \<open>n\<close> is the \<open>n\<close>-th slot ever bump-allocated.
\<close>

record pool =
  free_list :: "nat list"
  seg_count :: nat
  slots_used :: nat
  segment_capacity :: nat

record ('k, 'v) PooledMap =
  heap :: "nat \<rightharpoonup> ('k, 'v) node"
  pool :: pool
  root :: ptr
  size_m :: nat

definition empty_pool :: "nat \<Rightarrow> pool" where
  "empty_pool cap = \<lparr>free_list = [], seg_count = 0, slots_used = 0, segment_capacity = cap\<rparr>"

definition empty_map :: "nat \<Rightarrow> ('k, 'v) PooledMap" where
  "empty_map cap = \<lparr>heap = Map.empty, pool = empty_pool cap, root = None, size_m = 0\<rparr>"

subsection \<open>The pool\<close>

text \<open>
  Modelled from the spec: the preference order of \<^verbatim>\<open>create\<close>: (1) pop from the free list
  if it is non-empty; (2) bump-allocate from the current segment if it has capacity;
  (3) allocate a new segment and bump-allocate from it.
\<close>

definition pool_create :: "pool \<Rightarrow> nat \<times> pool" where
  "pool_create p =
     (case free_list p of
        a # fl \<Rightarrow> (a, p\<lparr>free_list := fl\<rparr>)
      | [] \<Rightarrow>
         if slots_used p < seg_count p * segment_capacity p
         then (slots_used p, p\<lparr>slots_used := slots_used p + 1\<rparr>)
         else (slots_used p, p\<lparr>seg_count := seg_count p + 1, slots_used := slots_used p + 1\<rparr>))"

text \<open>Modelled from the spec: \<^verbatim>\<open>recycle\<close> pushes the slot onto the free list.\<close>

definition pool_recycle :: "nat \<Rightarrow> pool \<Rightarrow> pool" where
  "pool_recycle a p = p\<lparr>free_list := a # free_list p\<rparr>"

text \<open>
  \<^verbatim>\<open>NodeType::create(key, value)\<close>: a slot from the pool, initialised by the constructor
  \<^verbatim>\<open>Node(k, v)\<close> with the default member initialisers (null links, \<^verbatim>\<open>RED\<close>).
\<close>

definition create :: "'k \<Rightarrow> 'v \<Rightarrow> ('k, 'v) PooledMap \<Rightarrow> ptr \<times> ('k, 'v) PooledMap" where
  "create k v s =
     (let (a, p) = pool_create (pool s)
      in (Some a,
          s\<lparr>heap := (heap s)(a \<mapsto> \<lparr>key = k, val = v, left = None, right = None,
                                     parent = None, color = RED\<rparr>),
            pool := p\<rparr>))"

text \<open>
  \<^verbatim>\<open>node->recycle()\<close>: the slot goes back to the pool; nothing may read or write through
  the pointer afterwards, so the cell leaves the memory.
\<close>

definition recycle :: "ptr \<Rightarrow> ('k, 'v) PooledMap \<Rightarrow> ('k, 'v) PooledMap option" where
  "recycle node s = do {
     a \<leftarrow> node;
     _ \<leftarrow> heap s a;
     Some (s\<lparr>heap := (heap s)(a := None), pool := pool_recycle a (pool s)\<rparr>) }"

subsection \<open>Reading and writing fields through a pointer\<close>

definition load :: "(('k, 'v) node \<Rightarrow> 'a) \<Rightarrow> ptr \<Rightarrow> ('k, 'v) PooledMap \<Rightarrow> 'a option" where
  "load f p s = do { a \<leftarrow> p; n \<leftarrow> heap s a; Some (f n) }"

definition store :: "(('k, 'v) node \<Rightarrow> ('k, 'v) node) \<Rightarrow> ptr \<Rightarrow> ('k, 'v) PooledMap
    \<Rightarrow> ('k, 'v) PooledMap option" where
  "store f p s = do { a \<leftarrow> p; n \<leftarrow> heap s a; Some (s\<lparr>heap := (heap s)(a \<mapsto> f n)\<rparr>) }"

abbreviation set_left :: "ptr \<Rightarrow> ptr \<Rightarrow> ('k, 'v) PooledMap \<Rightarrow> ('k, 'v) PooledMap option" where
  "set_left p q \<equiv> store (\<lambda>n. n\<lparr>left := q\<rparr>) p"

abbreviation set_right :: "ptr \<Rightarrow> ptr \<Rightarrow> ('k, 'v) PooledMap \<Rightarrow> ('k, 'v) PooledMap option" where
  "set_right p q \<equiv> store (\<lambda>n. n\<lparr>right := q\<rparr>) p"

abbreviation set_parent :: "ptr \<Rightarrow> ptr \<Rightarrow> ('k, 'v) PooledMap \<Rightarrow> ('k, 'v) PooledMap option" where
  "set_parent p q \<equiv> store (\<lambda>n. n\<lparr>parent := q\<rparr>) p"

abbreviation set_color :: "ptr \<Rightarrow> color \<Rightarrow> ('k, 'v) PooledMap \<Rightarrow> ('k, 'v) PooledMap option" where
  "set_color p c \<equiv> store (\<lambda>n. n\<lparr>color := c\<rparr>) p"

abbreviation set_val :: "ptr \<Rightarrow> 'v \<Rightarrow> ('k, 'v) PooledMap \<Rightarrow> ('k, 'v) PooledMap option" where
  "set_val p v \<equiv> store (\<lambda>n. n\<lparr>val := v\<rparr>) p"

text \<open>The guards \<^verbatim>\<open>p && p->color == RED\<close> and \<^verbatim>\<open>!p || p->color == BLACK\<close>.\<close>

definition nonnull_red :: "ptr \<Rightarrow> ('k, 'v) PooledMap \<Rightarrow> bool option" where
  "nonnull_red p s = (if p \<noteq> None then do { c \<leftarrow> load color p s; Some (c = RED) } else Some False)"

definition null_or_black :: "ptr \<Rightarrow> ('k, 'v) PooledMap \<Rightarrow> bool option" where
  "null_or_black p s = (if p = None then Some True else do { c \<leftarrow> load color p s; Some (c = BLACK) })"

section \<open>Red-black tree internals\<close>

definition rotate_left :: "ptr \<Rightarrow> ('k, 'v) PooledMap \<Rightarrow> ('k, 'v) PooledMap option" where
  "rotate_left x s = do {
     y \<leftarrow> load right x s;
     yl \<leftarrow> load left y s;
     s \<leftarrow> set_right x yl s;
     yl \<leftarrow> load left y s;
     s \<leftarrow> (if yl \<noteq> None then set_parent yl x s else Some s);
     xp \<leftarrow> load parent x s;
     s \<leftarrow> set_parent y xp s;
     xp \<leftarrow> load parent x s;
     s \<leftarrow> (if xp = None then Some (s\<lparr>root := y\<rparr>)
          else do {
            xpl \<leftarrow> load left xp s;
            if x = xpl then set_left xp y s else set_right xp y s });
     s \<leftarrow> set_left y x s;
     set_parent x y s }"

definition rotate_right :: "ptr \<Rightarrow> ('k, 'v) PooledMap \<Rightarrow> ('k, 'v) PooledMap option" where
  "rotate_right x s = do {
     y \<leftarrow> load left x s;
     yr \<leftarrow> load right y s;
     s \<leftarrow> set_left x yr s;
     yr \<leftarrow> load right y s;
     s \<leftarrow> (if yr \<noteq> None then set_parent yr x s else Some s);
     xp \<leftarrow> load parent x s;
     s \<leftarrow> set_parent y xp s;
     xp \<leftarrow> load parent x s;
     s \<leftarrow> (if xp = None then Some (s\<lparr>root := y\<rparr>)
          else do {
            xpr \<leftarrow> load right xp s;
            if x = xpr then set_right xp y s else set_left xp y s });
     s \<leftarrow> set_right y x s;
     set_parent x y s }"

subsection \<open>Insert fixup\<close>

text \<open>The loop guard \<^verbatim>\<open>z->parent && z->parent->color == RED\<close>.\<close>

definition fix_insert_cond :: "ptr \<Rightarrow> ('k, 'v) PooledMap \<Rightarrow> bool option" where
  "fix_insert_cond z s = do { zp \<leftarrow> load parent z s; nonnull_red zp s }"

text \<open>One pass through the loop body; it returns the new \<^verbatim>\<open>z\<close> and the new state.\<close>

definition fix_insert_body :: "ptr \<Rightarrow> ('k, 'v) PooledMap \<Rightarrow> (ptr \<times> ('k, 'v) PooledMap) option" where
  "fix_insert_body z s = do {
     zp \<leftarrow> load parent z s;
     zpp \<leftarrow> load parent zp s;
     zppl \<leftarrow> load left zpp s;
     if zp = zppl then do {
       y \<leftarrow> load right zpp s;
       y_red \<leftarrow> nonnull_red y s;
       if y_red then do {
         s \<leftarrow> set_color zp BLACK s;
         s \<leftarrow> set_color y BLACK s;
         s \<leftarrow> set_color zpp RED s;
         Some (zpp, s) }
       else do {
         zpr \<leftarrow> load right zp s;
         (z, s) \<leftarrow> (if z = zpr then do { s \<leftarrow> rotate_left zp s; Some (zp, s) }
                    else Some (z, s));
         zp \<leftarrow> load parent z s;
         s \<leftarrow> set_color zp BLACK s;
         zpp \<leftarrow> load parent zp s;
         s \<leftarrow> set_color zpp RED s;
         s \<leftarrow> rotate_right zpp s;
         Some (z, s) } }
     else do {
       y \<leftarrow> load left zpp s;
       y_red \<leftarrow> nonnull_red y s;
       if y_red then do {
         s \<leftarrow> set_color zp BLACK s;
         s \<leftarrow> set_color y BLACK s;
         s \<leftarrow> set_color zpp RED s;
         Some (zpp, s) }
       else do {
         zpl \<leftarrow> load left zp s;
         (z, s) \<leftarrow> (if z = zpl then do { s \<leftarrow> rotate_right zp s; Some (zp, s) }
                    else Some (z, s));
         zp \<leftarrow> load parent z s;
         s \<leftarrow> set_color zp BLACK s;
         zpp \<leftarrow> load parent zp s;
         s \<leftarrow> set_color zpp RED s;
         s \<leftarrow> rotate_left zpp s;
         Some (z, s) } } }"

partial_function (option) fix_insert_loop ::
    "ptr \<Rightarrow> ('k, 'v) PooledMap \<Rightarrow> ('k, 'v) PooledMap option" where
  "fix_insert_loop z s = do {
     c \<leftarrow> fix_insert_cond z s;
     if c then do { (z, s) \<leftarrow> fix_insert_body z s; fix_insert_loop z s }
     else Some s }"

definition fix_insert :: "ptr \<Rightarrow> ('k, 'v) PooledMap \<Rightarrow> ('k, 'v) PooledMap option" where
  "fix_insert z s = do { s \<leftarrow> fix_insert_loop z s; set_color (root s) BLACK s }"

subsection \<open>Erase fixup\<close>

text \<open>The loop guard \<^verbatim>\<open>x != root && (!x || x->color == BLACK)\<close>.\<close>

definition fix_erase_cond :: "ptr \<Rightarrow> ('k, 'v) PooledMap \<Rightarrow> bool option" where
  "fix_erase_cond x s = (if x \<noteq> root s then null_or_black x s else Some False)"

text \<open>
  The test \<^verbatim>\<open>(!w->a || w->a->color == BLACK) && (!w->b || w->b->color == BLACK)\<close>,
  evaluated left to right with short-circuit.
\<close>

definition both_black :: "(('k, 'v) node \<Rightarrow> ptr) \<Rightarrow> (('k, 'v) node \<Rightarrow> ptr) \<Rightarrow> ptr
    \<Rightarrow> ('k, 'v) PooledMap \<Rightarrow> bool option" where
  "both_black fa fb w s = do {
     wa \<leftarrow> load fa w s;
     a_black \<leftarrow> null_or_black wa s;
     if a_black then do { wb \<leftarrow> load fb w s; null_or_black wb s } else Some False }"

text \<open>One pass through the loop body; it returns the new \<^verbatim>\<open>x\<close>, \<^verbatim>\<open>x_parent\<close> and state.\<close>

definition fix_erase_body :: "ptr \<Rightarrow> ptr \<Rightarrow> ('k, 'v) PooledMap
    \<Rightarrow> (ptr \<times> ptr \<times> ('k, 'v) PooledMap) option" where
  "fix_erase_body x x_parent s = do {
     xpl \<leftarrow> load left x_parent s;
     if x = xpl then do {
       w \<leftarrow> load right x_parent s;
       w_red \<leftarrow> nonnull_red w s;
       (w, s) \<leftarrow> (if w_red then do {
                     s \<leftarrow> set_color w BLACK s;
                     s \<leftarrow> set_color x_parent RED s;
                     s \<leftarrow> rotate_left x_parent s;
                     w \<leftarrow> load right x_parent s;
                     Some (w, s) }
                  else Some (w, s));
       bb \<leftarrow> both_black left right w s;
       if bb then do {
         s \<leftarrow> set_color w RED s;
         xp \<leftarrow> load parent x_parent s;
         Some (x_parent, xp, s) }
       else do {
         wr \<leftarrow> load right w s;
         far_black \<leftarrow> null_or_black wr s;
         (w, s) \<leftarrow> (if far_black then do {
                       wl \<leftarrow> load left w s;
                       s \<leftarrow> (if wl \<noteq> None then set_color wl BLACK s else Some s);
                       s \<leftarrow> set_color w RED s;
                       s \<leftarrow> rotate_right w s;
                       w \<leftarrow> load right x_parent s;
                       Some (w, s) }
                    else Some (w, s));
         xpc \<leftarrow> load color x_parent s;
         s \<leftarrow> set_color w xpc s;
         s \<leftarrow> set_color x_parent BLACK s;
         wr \<leftarrow> load right w s;
         s \<leftarrow> (if wr \<noteq> None then set_color wr BLACK s else Some s);
         s \<leftarrow> rotate_left x_parent s;
         Some (root s, x_parent, s) } }
     else do {
       w \<leftarrow> load left x_parent s;
       w_red \<leftarrow> nonnull_red w s;
       (w, s) \<leftarrow> (if w_red then do {
                     s \<leftarrow> set_color w BLACK s;
                     s \<leftarrow> set_color x_parent RED s;
                     s \<leftarrow> rotate_right x_parent s;
                     w \<leftarrow> load left x_parent s;
                     Some (w, s) }
                  else Some (w, s));
       bb \<leftarrow> both_black right left w s;
       if bb then do {
         s \<leftarrow> set_color w RED s;
         xp \<leftarrow> load parent x_parent s;
         Some (x_parent, xp, s) }
       else do {
         wl \<leftarrow> load left w s;
         far_black \<leftarrow> null_or_black wl s;
         (w, s) \<leftarrow> (if far_black then do {
                       wr \<leftarrow> load right w s;
                       s \<leftarrow> (if wr \<noteq> None then set_color wr BLACK s else Some s);
                       s \<leftarrow> set_color w RED s;
                       s \<leftarrow> rotate_left w s;
                       w \<leftarrow> load left x_parent s;
                       Some (w, s) }
                    else Some (w, s));
         xpc \<leftarrow> load color x_parent s;
         s \<leftarrow> set_color w xpc s;
         s \<leftarrow> set_color x_parent BLACK s;
         wl \<leftarrow> load left w s;
         s \<leftarrow> (if wl \<noteq> None then set_color wl BLACK s else Some s);
         s \<leftarrow> rotate_right x_parent s;
         Some (root s, x_parent, s) } } }"

partial_function (option) fix_erase_loop ::
    "ptr \<Rightarrow> ptr \<Rightarrow> ('k, 'v) PooledMap \<Rightarrow> (ptr \<times> ('k, 'v) PooledMap) option" where
  "fix_erase_loop x x_parent s = do {
     c \<leftarrow> fix_erase_cond x s;
     if c then do { (x, x_parent, s) \<leftarrow> fix_erase_body x x_parent s; fix_erase_loop x x_parent s }
     else Some (x, s) }"

definition fix_erase :: "ptr \<Rightarrow> ptr \<Rightarrow> ('k, 'v) PooledMap \<Rightarrow> ('k, 'v) PooledMap option" where
  "fix_erase x x_parent s = do {
     (x, s) \<leftarrow> fix_erase_loop x x_parent s;
     if x \<noteq> None then set_color x BLACK s else Some s }"

subsection \<open>Minimum and transplant\<close>

partial_function (option) minimum :: "ptr \<Rightarrow> ('k, 'v) PooledMap \<Rightarrow> ptr option" where
  "minimum node s = do {
     l \<leftarrow> load left node s;
     if l \<noteq> None then minimum l s else Some node }"

definition transplant :: "ptr \<Rightarrow> ptr \<Rightarrow> ('k, 'v) PooledMap \<Rightarrow> ('k, 'v) PooledMap option" where
  "transplant u v s = do {
     up \<leftarrow> load parent u s;
     s \<leftarrow> (if up = None then Some (s\<lparr>root := v\<rparr>)
          else do {
            upl \<leftarrow> load left up s;
            if u = upl then set_left up v s else set_right up v s });
     if v \<noteq> None then do { up \<leftarrow> load parent u s; set_parent v up s } else Some s }"

section \<open>Public interface\<close>

subsection \<open>\<^verbatim>\<open>operator[]\<close>\<close>

text \<open>
  The descent of \<^verbatim>\<open>operator[]\<close>: \<open>Inl cur\<close> is the early return at an equal key (the node
  whose value is referenced), \<open>Inr parent\<close> the fall off the tree below \<^verbatim>\<open>parent\<close>.
\<close>

partial_function (option) operator_index_loop ::
    "'k::linorder \<Rightarrow> ptr \<Rightarrow> ptr \<Rightarrow> ('k, 'v) PooledMap \<Rightarrow> (ptr + ptr) option" where
  "operator_index_loop k cur par s =
     (if cur \<noteq> None then do {
        ck \<leftarrow> load key cur s;
        if k = ck then Some (Inl cur)
        else do {
          nxt \<leftarrow> (if k < ck then load left cur s else load right cur s);
          operator_index_loop k nxt cur s } }
      else Some (Inr par))"

text \<open>
  The block of \<^verbatim>\<open>operator[]\<close> that creates the node and hangs it below
  \<^verbatim>\<open>parent\<close>, or makes it the root of an empty tree.
\<close>

definition link_new_node ::
    "'k::linorder \<Rightarrow> ptr \<Rightarrow> ('k, 'v::default) PooledMap \<Rightarrow> (ptr \<times> ('k, 'v) PooledMap) option" where
  "link_new_node k par s = do {
     let (node, s) = create k default s;
     s \<leftarrow> set_parent node None s;
     s \<leftarrow> set_right node None s;
     s \<leftarrow> set_left node None s;
     s \<leftarrow> set_color node RED s;
     s \<leftarrow> set_parent node par s;
     s \<leftarrow> (if root s = None then Some (s\<lparr>root := node\<rparr>)
          else do {
            pk \<leftarrow> load key par s;
            if k < pk then set_left par node s else set_right par node s });
     Some (node, s) }"

text \<open>
  The returned \<^verbatim>\<open>Value&\<close> is the pointer to the node that holds the value; reading and
  writing through the reference are \<^term>\<open>load val\<close> and \<^term>\<open>set_val\<close> at that pointer.
\<close>

definition operator_index ::
    "'k::linorder \<Rightarrow> ('k, 'v::default) PooledMap \<Rightarrow> (ptr \<times> ('k, 'v) PooledMap) option" where
  "operator_index k s = do {
     r \<leftarrow> operator_index_loop k (root s) None s;
     case r of
       Inl cur \<Rightarrow> Some (cur, s)
     | Inr par \<Rightarrow> do {
         (node, s) \<leftarrow> link_new_node k par s;
         s \<leftarrow> fix_insert node s;
         Some (node, s\<lparr>size_m := size_m s + 1\<rparr>) } }"

subsection \<open>\<^verbatim>\<open>find\<close> and \<^verbatim>\<open>contains\<close>\<close>

partial_function (option) find_loop ::
    "'k::linorder \<Rightarrow> ptr \<Rightarrow> ('k, 'v::default) PooledMap \<Rightarrow> 'v option" where
  "find_loop k cur s =
     (if cur \<noteq> None then do {
        ck \<leftarrow> load key cur s;
        if k = ck then load val cur s
        else do {
          nxt \<leftarrow> (if k < ck then load left cur s else load right cur s);
          find_loop k nxt s } }
      else Some default)"

definition find :: "'k::linorder \<Rightarrow> ('k, 'v::default) PooledMap \<Rightarrow> 'v option" where
  "find k s = find_loop k (root s) s"

partial_function (option) contains_loop ::
    "'k::linorder \<Rightarrow> ptr \<Rightarrow> ('k, 'v) PooledMap \<Rightarrow> bool option" where
  "contains_loop k cur s =
     (if cur \<noteq> None then do {
        ck \<leftarrow> load key cur s;
        if k = ck then Some True
        else do {
          nxt \<leftarrow> (if k < ck then load left cur s else load right cur s);
          contains_loop k nxt s } }
      else Some False)"

definition contains :: "'k::linorder \<Rightarrow> ('k, 'v) PooledMap \<Rightarrow> bool option" where
  "contains k s = contains_loop k (root s) s"

subsection \<open>\<^verbatim>\<open>erase\<close>\<close>

partial_function (option) erase_loop ::
    "'k::linorder \<Rightarrow> ptr \<Rightarrow> ('k, 'v) PooledMap \<Rightarrow> ptr option" where
  "erase_loop k z s =
     (if z \<noteq> None then do {
        zk \<leftarrow> load key z s;
        if k = zk then Some z
        else do {
          nxt \<leftarrow> (if k < zk then load left z s else load right z s);
          erase_loop k nxt s } }
      else Some z)"

text \<open>
  The three structural cases of \<^verbatim>\<open>erase\<close>; the result is \<^verbatim>\<open>y_original_color\<close>, \<^verbatim>\<open>x\<close>,
  \<^verbatim>\<open>x_parent\<close> and the state once \<^verbatim>\<open>z\<close> is unlinked.
\<close>

definition erase_unlink :: "ptr \<Rightarrow> ('k, 'v) PooledMap
    \<Rightarrow> (color \<times> ptr \<times> ptr \<times> ('k, 'v) PooledMap) option" where
  "erase_unlink z s = do {
     y_original_color \<leftarrow> load color z s;
     zl \<leftarrow> load left z s;
     if zl = None then do {
       x \<leftarrow> load right z s;
       x_parent \<leftarrow> load parent z s;
       zr \<leftarrow> load right z s;
       s \<leftarrow> transplant z zr s;
       Some (y_original_color, x, x_parent, s) }
     else do {
       zr \<leftarrow> load right z s;
       if zr = None then do {
         x \<leftarrow> load left z s;
         x_parent \<leftarrow> load parent z s;
         zl \<leftarrow> load left z s;
         s \<leftarrow> transplant z zl s;
         Some (y_original_color, x, x_parent, s) }
       else do {
         y \<leftarrow> minimum zr s;
         y_original_color \<leftarrow> load color y s;
         x \<leftarrow> load right y s;
         yp \<leftarrow> load parent y s;
         (x_parent, s) \<leftarrow>
           (if yp = z then do {
              s \<leftarrow> (if x \<noteq> None then set_parent x y s else Some s);
              Some (y, s) }
            else do {
              yr \<leftarrow> load right y s;
              s \<leftarrow> transplant y yr s;
              zr \<leftarrow> load right z s;
              s \<leftarrow> set_right y zr s;
              yr \<leftarrow> load right y s;
              s \<leftarrow> set_parent yr y s;
              x_parent \<leftarrow> load parent y s;
              Some (x_parent, s) });
         s \<leftarrow> transplant z y s;
         zl \<leftarrow> load left z s;
         s \<leftarrow> set_left y zl s;
         yl \<leftarrow> load left y s;
         s \<leftarrow> set_parent yl y s;
         zc \<leftarrow> load color z s;
         s \<leftarrow> set_color y zc s;
         Some (y_original_color, x, x_parent, s) } } }"

definition erase :: "'k::linorder \<Rightarrow> ('k, 'v) PooledMap \<Rightarrow> (nat \<times> ('k, 'v) PooledMap) option" where
  "erase k s = do {
     z \<leftarrow> erase_loop k (root s) s;
     if z = None then Some (0, s)
     else do {
       (y_original_color, x, x_parent, s) \<leftarrow> erase_unlink z s;
       s \<leftarrow> recycle z s;
       let s = s\<lparr>size_m := size_m s - 1\<rparr>;
       s \<leftarrow> (if y_original_color = BLACK then fix_erase x x_parent s else Some s);
       Some (1, s) } }"

subsection \<open>\<^verbatim>\<open>size\<close>, \<^verbatim>\<open>empty\<close>, traversal and teardown\<close>

definition size_of :: "('k, 'v) PooledMap \<Rightarrow> nat" where
  "size_of s = size_m s"

definition empty :: "('k, 'v) PooledMap \<Rightarrow> bool" where
  "empty s = (size_m s = 0)"

text \<open>
  A visitor \<^verbatim>\<open>func(const Key&, Value&)\<close> sees the key and the value, may assign the value,
  and carries whatever it captured: it maps key, value and its own state to the value it
  leaves in the node and its new state.
\<close>

type_synonym ('k, 'v, 'a) visitor = "'k \<Rightarrow> 'v \<Rightarrow> 'a \<Rightarrow> 'v \<times> 'a"

partial_function (option) inorder_traverse ::
    "ptr \<Rightarrow> ('k, 'v, 'a) visitor \<Rightarrow> 'a \<Rightarrow> ('k, 'v) PooledMap \<Rightarrow> ('a \<times> ('k, 'v) PooledMap) option" where
  "inorder_traverse node func acc s =
     (if node = None then Some (acc, s)
      else do {
        l \<leftarrow> load left node s;
        (acc, s) \<leftarrow> inorder_traverse l func acc s;
        k \<leftarrow> load key node s;
        v \<leftarrow> load val node s;
        let (v, acc) = func k v acc;
        s \<leftarrow> set_val node v s;
        r \<leftarrow> load right node s;
        inorder_traverse r func acc s })"

definition for_each ::
    "('k, 'v, 'a) visitor \<Rightarrow> 'a \<Rightarrow> ('k, 'v) PooledMap \<Rightarrow> ('a \<times> ('k, 'v) PooledMap) option" where
  "for_each func acc s = inorder_traverse (root s) func acc s"

partial_function (option) clear :: "ptr \<Rightarrow> ('k, 'v) PooledMap \<Rightarrow> ('k, 'v) PooledMap option" where
  "clear node s =
     (if node = None then Some s
      else do {
        l \<leftarrow> load left node s;
        s \<leftarrow> clear l s;
        r \<leftarrow> load right node s;
        s \<leftarrow> clear r s;
        recycle node s })"

text \<open>The destructor \<^verbatim>\<open>~PooledMap() { clear(root); }\<close>.\<close>

definition destroy :: "('k, 'v) PooledMap \<Rightarrow> ('k, 'v) PooledMap option" where
  "destroy s = clear (root s) s"

declare fix_insert_loop.simps [code]
declare fix_erase_loop.simps [code]
declare minimum.simps [code]
declare operator_index_loop.simps [code]
declare find_loop.simps [code]
declare contains_loop.simps [code]
declare erase_loop.simps [code]
declare inorder_traverse.simps [code]
declare clear.simps [code]

section \<open>Sequences of operations\<close>

text \<open>
  A client's call: \<^verbatim>\<open>m[k]\<close> alone, \<^verbatim>\<open>m[k] = v\<close> (the upsert followed by an assignment
  through the returned reference), or \<^verbatim>\<open>m.erase(k)\<close>.
\<close>

datatype ('k, 'v) call = Upsert 'k | Assign 'k 'v | Erase 'k

fun apply_call :: "('k::linorder, 'v::default) call \<Rightarrow> ('k, 'v) PooledMap
    \<Rightarrow> ('k, 'v) PooledMap option" where
  "apply_call (Upsert k) s = do { (r, s) \<leftarrow> operator_index k s; Some s }"
| "apply_call (Assign k v) s = do { (r, s) \<leftarrow> operator_index k s; set_val r v s }"
| "apply_call (Erase k) s = do { (n, s) \<leftarrow> erase k s; Some s }"

fun run :: "('k::linorder, 'v::default) call list \<Rightarrow> ('k, 'v) PooledMap
    \<Rightarrow> ('k, 'v) PooledMap option" where
  "run [] s = Some s"
| "run (c # cs) s = do { s \<leftarrow> apply_call c s; run cs s }"

text \<open>The visitor that records what it is shown and leaves the values alone.\<close>

definition record_visitor :: "('k, 'v, ('k \<times> 'v) list) visitor" where
  "record_visitor k v acc = (v, acc @ [(k, v)])"

instantiation int :: default
begin

definition default_int :: int where
  "default_int = 0"

instance ..

end

section \<open>Trees and contexts: the shape of the memory\<close>

datatype ('k, 'v) tree = Lf | Nd "('k, 'v) tree" nat 'k 'v color "('k, 'v) tree"

datatype ('k, 'v) frame =
  InL nat 'k 'v color "('k, 'v) tree"
| InR "('k, 'v) tree" nat 'k 'v color

fun ptr_of :: "('k, 'v) tree \<Rightarrow> ptr" where
  "ptr_of Lf = None"
| "ptr_of (Nd l a k v c r) = Some a"

fun addrs :: "('k, 'v) tree \<Rightarrow> nat list" where
  "addrs Lf = []"
| "addrs (Nd l a k v c r) = addrs l @ a # addrs r"

fun fill :: "('k, 'v) frame \<Rightarrow> ('k, 'v) tree \<Rightarrow> ('k, 'v) tree" where
  "fill (InL a k v c r) t = Nd t a k v c r"
| "fill (InR l a k v c) t = Nd l a k v c t"

fun plug :: "('k, 'v) frame list \<Rightarrow> ('k, 'v) tree \<Rightarrow> ('k, 'v) tree" where
  "plug [] t = t"
| "plug (f # c) t = plug c (fill f t)"

fun faddr :: "('k, 'v) frame \<Rightarrow> nat" where
  "faddr (InL a k v c r) = a"
| "faddr (InR l a k v c) = a"

fun fsib :: "('k, 'v) frame \<Rightarrow> ('k, 'v) tree" where
  "fsib (InL a k v c r) = r"
| "fsib (InR l a k v c) = l"

fun cpar :: "('k, 'v) frame list \<Rightarrow> ptr" where
  "cpar [] = None"
| "cpar (f # c) = Some (faddr f)"

fun caddrs :: "('k, 'v) frame list \<Rightarrow> nat list" where
  "caddrs [] = []"
| "caddrs (f # c) = faddr f # addrs (fsib f) @ caddrs c"

fun heap_of :: "ptr \<Rightarrow> ('k, 'v) tree \<Rightarrow> nat \<rightharpoonup> ('k, 'v) node" where
  "heap_of par Lf = Map.empty"
| "heap_of par (Nd l a k v c r) =
     (heap_of (Some a) l ++ heap_of (Some a) r)
       (a \<mapsto> \<lparr>key = k, val = v, left = ptr_of l, right = ptr_of r, parent = par, color = c\<rparr>)"

definition state_of :: "('k, 'v) tree \<Rightarrow> pool \<Rightarrow> nat \<Rightarrow> ('k, 'v) PooledMap" where
  "state_of t p n = \<lparr>heap = heap_of None t, pool = p, root = ptr_of t, size_m = n\<rparr>"

fun paint :: "nat \<Rightarrow> color \<Rightarrow> ('k, 'v) tree \<Rightarrow> ('k, 'v) tree" where
  "paint x c' Lf = Lf"
| "paint x c' (Nd l a k v c r) =
     (if x = a then Nd l a k v c' r else Nd (paint x c' l) a k v c (paint x c' r))"

fun assign :: "nat \<Rightarrow> 'v \<Rightarrow> ('k, 'v) tree \<Rightarrow> ('k, 'v) tree" where
  "assign x v' Lf = Lf"
| "assign x v' (Nd l a k v c r) =
     (if x = a then Nd l a k v' c r else Nd (assign x v' l) a k v c (assign x v' r))"

subsection \<open>Addresses\<close>

lemma set_addrs_fill: "set (addrs (fill f t)) = insert (faddr f) (set (addrs (fsib f)) \<union> set (addrs t))"
  by (cases f) auto

lemma set_addrs_plug [simp]: "set (addrs (plug c t)) = set (addrs t) \<union> set (caddrs c)"
  by (induction c arbitrary: t) (auto simp: set_addrs_fill)

lemma distinct_fill:
  "distinct (addrs (fill f t)) \<longleftrightarrow>
     distinct (addrs t) \<and> distinct (addrs (fsib f)) \<and> faddr f \<notin> set (addrs t) \<and>
     faddr f \<notin> set (addrs (fsib f)) \<and> set (addrs t) \<inter> set (addrs (fsib f)) = {}"
  by (cases f) auto

lemma distinct_plug [simp]:
  "distinct (addrs (plug c t)) \<longleftrightarrow>
     distinct (addrs t) \<and> distinct (caddrs c) \<and> set (addrs t) \<inter> set (caddrs c) = {}"
  by (induction c arbitrary: t) (auto simp: distinct_fill set_addrs_fill)

lemma ptr_of_None [simp]: "ptr_of t = None \<longleftrightarrow> t = Lf"
  by (cases t) auto

lemma ptr_of_Some: "ptr_of t = Some a \<Longrightarrow> a \<in> set (addrs t)"
  by (cases t) auto

lemma ptr_of_notin [simp]:
  "a \<notin> set (addrs t) \<Longrightarrow> ptr_of t \<noteq> Some a"
  "a \<notin> set (addrs t) \<Longrightarrow> Some a \<noteq> ptr_of t"
  by (cases t; auto)+

subsection \<open>The memory of a tree\<close>

lemma dom_heap_of [simp]: "dom (heap_of par t) = set (addrs t)"
  by (induction t arbitrary: par) auto

lemma heap_of_eq_None [simp]: "heap_of par t a = None \<longleftrightarrow> a \<notin> set (addrs t)"
  using dom_heap_of[of par t] by (metis domIff)

lemma None_eq_heap_of [simp]: "None = heap_of par t a \<longleftrightarrow> a \<notin> set (addrs t)"
  using heap_of_eq_None[of par t a] by (metis heap_of_eq_None)

lemma heap_of_add_left [simp]: "b \<notin> set (addrs r) \<Longrightarrow> (m ++ heap_of p r) b = m b"
  by (simp add: map_add_dom_app_simps)

lemma heap_of_add_right [simp]: "b \<in> set (addrs r) \<Longrightarrow> (m ++ heap_of p r) b = heap_of p r b"
  by (simp add: map_add_dom_app_simps)

lemma heap_of_fill:
  "distinct (addrs (fill f t)) \<Longrightarrow> a \<in> set (addrs t) \<Longrightarrow>
   heap_of par (fill f t) a = heap_of (Some (faddr f)) t a"
proof (cases f)
  case (InL b k v c r)
  assume "distinct (addrs (fill f t))" "a \<in> set (addrs t)"
  then have "a \<noteq> b" "a \<notin> dom (heap_of (Some b) r)" using InL by auto
  then show ?thesis using InL by (simp add: map_add_dom_app_simps)
next
  case (InR l b k v c)
  assume "distinct (addrs (fill f t))" "a \<in> set (addrs t)"
  then have "a \<noteq> b" "a \<in> dom (heap_of (Some b) t)" using InR by auto
  then show ?thesis using InR by (simp add: map_add_dom_app_simps)
qed

lemma heap_of_plug:
  "distinct (addrs (plug c t)) \<Longrightarrow> a \<in> set (addrs t) \<Longrightarrow>
   heap_of None (plug c t) a = heap_of (cpar c) t a"
proof (induction c arbitrary: t)
  case Nil
  then show ?case by simp
next
  case (Cons f c)
  have d: "distinct (addrs (plug c (fill f t)))" using Cons.prems(1) by simp
  have m: "a \<in> set (addrs (fill f t))" using Cons.prems(2) by (simp add: set_addrs_fill)
  have "distinct (addrs (fill f t))" using d by simp
  then show ?case using Cons.IH[OF d m] Cons.prems(2) by (simp add: heap_of_fill)
qed


subsection \<open>Memory that holds a tree\<close>

fun heap_tree :: "(nat \<rightharpoonup> ('k, 'v) node) \<Rightarrow> ptr \<Rightarrow> ('k, 'v) tree \<Rightarrow> bool" where
  "heap_tree h par Lf = True"
| "heap_tree h par (Nd l a k v c r) =
     (h a = Some \<lparr>key = k, val = v, left = ptr_of l, right = ptr_of r, parent = par, color = c\<rparr> \<and>
      heap_tree h (Some a) l \<and> heap_tree h (Some a) r)"

fun fnode :: "('k, 'v) frame \<Rightarrow> ptr \<Rightarrow> ptr \<Rightarrow> ('k, 'v) node" where
  "fnode (InL a k v c r) hole par =
     \<lparr>key = k, val = v, left = hole, right = ptr_of r, parent = par, color = c\<rparr>"
| "fnode (InR l a k v c) hole par =
     \<lparr>key = k, val = v, left = ptr_of l, right = hole, parent = par, color = c\<rparr>"

fun heap_ctx :: "(nat \<rightharpoonup> ('k, 'v) node) \<Rightarrow> ('k, 'v) frame list \<Rightarrow> ptr \<Rightarrow> bool" where
  "heap_ctx h [] hole = True"
| "heap_ctx h (f # c) hole =
     (h (faddr f) = Some (fnode f hole (cpar c)) \<and> heap_tree h (Some (faddr f)) (fsib f) \<and>
      heap_ctx h c (Some (faddr f)))"

lemma ptr_of_fill [simp]: "ptr_of (fill f t) = Some (faddr f)"
  by (cases f) auto

lemma heap_tree_fill:
  "heap_tree h par (fill f t) \<longleftrightarrow>
     h (faddr f) = Some (fnode f (ptr_of t) par) \<and> heap_tree h (Some (faddr f)) (fsib f) \<and>
     heap_tree h (Some (faddr f)) t"
  by (cases f) auto

lemma heap_tree_plug:
  "heap_tree h None (plug c t) \<longleftrightarrow> heap_tree h (cpar c) t \<and> heap_ctx h c (ptr_of t)"
  by (induction c arbitrary: t) (auto simp: heap_tree_fill)

lemma heap_tree_upd [simp]:
  "a \<notin> set (addrs t) \<Longrightarrow> heap_tree (h(a := x)) par t = heap_tree h par t"
  by (induction t arbitrary: par) auto

lemma heap_ctx_upd [simp]:
  "a \<notin> set (caddrs c) \<Longrightarrow> heap_ctx (h(a := x)) c hole = heap_ctx h c hole"
  by (induction c arbitrary: hole) auto

lemma heap_tree_agree:
  "\<forall>b \<in> set (addrs t). h b = h' b \<Longrightarrow> heap_tree h p t \<Longrightarrow> heap_tree h' p t"
  by (induction t arbitrary: p) auto

lemma heap_tree_heap_of: "distinct (addrs t) \<Longrightarrow> heap_tree (heap_of par t) par t"
proof (induction t arbitrary: par)
  case Lf
  then show ?case by simp
next
  case (Nd l a k v c r)
  have l: "heap_tree (heap_of (Some a) l) (Some a) l" and r: "heap_tree (heap_of (Some a) r) (Some a) r"
    using Nd by auto
  have "\<forall>b \<in> set (addrs l). b \<notin> set (addrs r) \<and> b \<noteq> a" using Nd.prems by auto
  then have "\<forall>b \<in> set (addrs l). heap_of (Some a) l b = heap_of par (Nd l a k v c r) b"
    by simp
  then have l': "heap_tree (heap_of par (Nd l a k v c r)) (Some a) l"
    using l by (rule heap_tree_agree)
  have "\<forall>b \<in> set (addrs r). b \<noteq> a" using Nd.prems by auto
  then have "\<forall>b \<in> set (addrs r). heap_of (Some a) r b = heap_of par (Nd l a k v c r) b"
    by simp
  then have r': "heap_tree (heap_of par (Nd l a k v c r)) (Some a) r"
    using r by (rule heap_tree_agree)
  have "heap_of par (Nd l a k v c r) a =
      Some \<lparr>key = k, val = v, left = ptr_of l, right = ptr_of r, parent = par, color = c\<rparr>"
    by simp
  then show ?case using l' r' by (simp del: heap_of.simps)
qed

lemma heap_tree_lookup:
  "heap_tree h par t \<Longrightarrow> a \<in> set (addrs t) \<Longrightarrow> h a = heap_of par t a"
proof (induction t arbitrary: par)
  case Lf
  then show ?case by simp
next
  case (Nd l b k v c r)
  show ?case
  proof (cases "a = b")
    case True
    then show ?thesis using Nd.prems by simp
  next
    case ab: False
    show ?thesis
    proof (cases "a \<in> set (addrs r)")
      case True
      then have "a \<in> dom (heap_of (Some b) r)" by simp
      then show ?thesis using ab Nd.IH(2)[of "Some b"] Nd.prems True
        by (simp add: map_add_dom_app_simps)
    next
      case False
      then have "a \<notin> dom (heap_of (Some b) r)" "a \<in> set (addrs l)" using Nd.prems ab by auto
      then show ?thesis using ab Nd.IH(1)[of "Some b"] Nd.prems
        by (simp add: map_add_dom_app_simps)
    qed
  qed
qed

lemma heap_tree_unique:
  assumes "heap_tree h par t" "dom h = set (addrs t)"
  shows "h = heap_of par t"
proof
  fix a
  show "h a = heap_of par t a"
  proof (cases "a \<in> set (addrs t)")
    case True
    then show ?thesis using assms(1) by (rule heap_tree_lookup[rotated])
  next
    case False
    then have "h a = None" using assms(2) by blast
    moreover have "heap_of par t a = None" using False by simp
    ultimately show ?thesis by simp
  qed
qed

lemma state_of_eqI:
  "heap_tree h None t \<Longrightarrow> dom h = set (addrs t) \<Longrightarrow> r = ptr_of t \<Longrightarrow>
   \<lparr>heap = h, pool = p, root = r, size_m = n\<rparr> = state_of t p n"
  by (simp add: state_of_def heap_tree_unique)

lemma ptr_of_plug: "c \<noteq> [] \<Longrightarrow> ptr_of (plug c t) = ptr_of (plug c t')"
proof (induction c arbitrary: t t')
  case Nil
  then show ?case by simp
next
  case (Cons f c)
  show ?case
  proof (cases c)
    case Nil
    then show ?thesis by (cases f) auto
  next
    case (Cons g c')
    then show ?thesis using Cons.IH[of "fill f t" "fill f t'"] by simp
  qed
qed

lemma addrs_paint [simp]: "addrs (paint a c' t) = addrs t"
  by (induction t) auto

lemma ptr_of_paint [simp]: "ptr_of (paint a c' t) = ptr_of t"
  by (cases t) auto

lemma paint_notin [simp]: "a \<notin> set (addrs t) \<Longrightarrow> paint a c' t = t"
  by (induction t) auto

lemma paint_fill:
  "a \<noteq> faddr f \<Longrightarrow> a \<notin> set (addrs (fsib f)) \<Longrightarrow> paint a c' (fill f t) = fill f (paint a c' t)"
  by (cases f) auto

lemma paint_plug:
  "distinct (addrs (plug c t)) \<Longrightarrow> a \<in> set (addrs t) \<Longrightarrow> paint a c' (plug c t) = plug c (paint a c' t)"
proof (induction c arbitrary: t)
  case Nil
  then show ?case by simp
next
  case (Cons f c)
  have "a \<noteq> faddr f" "a \<notin> set (addrs (fsib f))" using Cons.prems by (auto simp: distinct_fill)
  then have "paint a c' (fill f t) = fill f (paint a c' t)" by (rule paint_fill)
  moreover have "paint a c' (plug c (fill f t)) = plug c (paint a c' (fill f t))"
    using Cons.prems by (intro Cons.IH) (auto simp: set_addrs_fill)
  ultimately show ?case by simp
qed

lemma heap_tree_paint:
  "heap_tree h par t \<Longrightarrow> distinct (addrs t) \<Longrightarrow> a \<in> set (addrs t) \<Longrightarrow> h a = Some nd \<Longrightarrow>
   heap_tree (h(a \<mapsto> nd\<lparr>color := c'\<rparr>)) par (paint a c' t)"
proof (induction t arbitrary: par)
  case Lf
  then show ?case by simp
next
  case (Nd l b k v c r)
  consider "a = b" | "a \<noteq> b" "a \<in> set (addrs l)" "a \<notin> set (addrs r)"
    | "a \<noteq> b" "a \<in> set (addrs r)" "a \<notin> set (addrs l)"
    using Nd.prems by auto
  then show ?case
  proof cases
    case 1
    have nd: "nd = \<lparr>key = k, val = v, left = ptr_of l, right = ptr_of r, parent = par, color = c\<rparr>"
      using Nd.prems(1,4) 1 by simp
    have "heap_tree (h(b \<mapsto> nd\<lparr>color := c'\<rparr>)) par (paint b c' (Nd l b k v c r))"
      unfolding nd using Nd.prems(1,2) by simp
    then show ?thesis unfolding 1 .
  next
    case 2
    let ?h = "h(a \<mapsto> nd\<lparr>color := c'\<rparr>)"
    have "?h b = h b" using 2 by simp
    moreover have "heap_tree ?h (Some b) (paint a c' l)"
      using 2 Nd.prems by (intro Nd.IH(1)) simp_all
    moreover have "heap_tree ?h (Some b) r" using 2 Nd.prems by simp
    ultimately show ?thesis using 2 Nd.prems(1) by (simp del: fun_upd_apply)
  next
    case 3
    let ?h = "h(a \<mapsto> nd\<lparr>color := c'\<rparr>)"
    have "?h b = h b" using 3 by simp
    moreover have "heap_tree ?h (Some b) (paint a c' r)"
      using 3 Nd.prems by (intro Nd.IH(2)) simp_all
    moreover have "heap_tree ?h (Some b) l" using 3 Nd.prems by simp
    ultimately show ?thesis using 3 Nd.prems(1) by (simp del: fun_upd_apply)
  qed
qed

lemma state_of_heap_tree: "distinct (addrs t) \<Longrightarrow> heap_tree (heap (state_of t p n)) None t"
  by (simp add: state_of_def heap_tree_heap_of)

lemma set_color_state_of:
  assumes "distinct (addrs t)" "a \<in> set (addrs t)"
  shows "store (\<lambda>n. n\<lparr>color := c'\<rparr>) (Some a) (state_of t p n) = Some (state_of (paint a c' t) p n)"
proof -
  let ?h = "heap_of None t"
  obtain nd where nd: "?h a = Some nd" using assms(2) by (meson heap_of_eq_None not_Some_eq)
  have "heap_tree (?h(a \<mapsto> nd\<lparr>color := c'\<rparr>)) None (paint a c' t)"
    using assms nd by (intro heap_tree_paint heap_tree_heap_of)
  moreover have "dom (?h(a \<mapsto> nd\<lparr>color := c'\<rparr>)) = set (addrs (paint a c' t))"
    using assms(2) by auto
  ultimately have "\<lparr>heap = ?h(a \<mapsto> nd\<lparr>color := c'\<rparr>), pool = p, root = ptr_of t, size_m = n\<rparr>
      = state_of (paint a c' t) p n"
    by (intro state_of_eqI) auto
  then show ?thesis using nd by (simp add: store_def state_of_def)
qed

lemma load_state_of:
  "distinct (addrs (plug c t)) \<Longrightarrow> a \<in> set (addrs t) \<Longrightarrow>
   load f (Some a) (state_of (plug c t) p n) = map_option f (heap_of (cpar c) t a)"
  by (cases "heap_of (cpar c) t a") (simp_all add: load_def state_of_def heap_of_plug)

lemma rotate_left_state:
  assumes d: "distinct (addrs (plug c (Nd a x kx vx cx (Nd b y ky vy cy d))))"
  shows "rotate_left (Some x) (state_of (plug c (Nd a x kx vx cx (Nd b y ky vy cy d))) p n)
       = Some (state_of (plug c (Nd (Nd a x kx vx cx b) y ky vy cy d)) p n)"
proof -
  let ?T = "plug c (Nd a x kx vx cx (Nd b y ky vy cy d))"
  let ?T' = "plug c (Nd (Nd a x kx vx cx b) y ky vy cy d)"
  define h where "h = heap_of None ?T"
  have ht: "heap_tree h None ?T" unfolding h_def using d by (rule heap_tree_heap_of)
  have dom: "dom h = set (addrs ?T)" unfolding h_def by (rule dom_heap_of)
  have s: "state_of ?T p n = \<lparr>heap = h, pool = p, root = ptr_of ?T, size_m = n\<rparr>"
    by (simp add: state_of_def h_def)
  from ht have cells:
    "h x = Some \<lparr>key = kx, val = vx, left = ptr_of a, right = Some y, parent = cpar c, color = cx\<rparr>"
    "h y = Some \<lparr>key = ky, val = vy, left = ptr_of b, right = ptr_of d, parent = Some x, color = cy\<rparr>"
    "heap_tree h (Some x) a" "heap_tree h (Some y) b" "heap_tree h (Some y) d"
    "heap_ctx h c (Some x)"
    by (simp_all add: heap_tree_plug)
  show ?thesis
  proof (cases c)
    case Nil
    show ?thesis
    proof (cases b)
      case Lf
      show ?thesis unfolding s using d cells Nil Lf dom
        apply (simp add: rotate_left_def load_def store_def)
        apply (rule state_of_eqI)
        apply (simp add: heap_tree_plug)
         apply (simp; blast)
        apply simp
        done
    next
      case (Nd bl br bk bv bc bb)
      show ?thesis unfolding s using d cells Nil Nd dom
        apply (simp add: rotate_left_def load_def store_def)
        apply (rule state_of_eqI)
        apply (simp add: heap_tree_plug)
         apply (simp; blast)
        apply simp
        done
    qed
  next
    case (Cons f c')
    have r: "ptr_of ?T = ptr_of ?T'" using Cons by (intro ptr_of_plug) simp
    show ?thesis
    proof (cases b)
      case Lf
      show ?thesis unfolding s using d cells Cons Lf dom r
        apply (cases f)
        apply (simp_all add: rotate_left_def load_def store_def)
         apply (rule state_of_eqI)
           apply (simp add: heap_tree_plug)
          apply (simp; blast)
         apply simp
        apply (rule state_of_eqI)
          apply (simp add: heap_tree_plug)
         apply (simp; blast)
        apply simp
        done
    next
      case (Nd bl br bk bv bc bb)
      show ?thesis unfolding s using d cells Cons Nd dom r
        apply (cases f)
        apply (simp_all add: rotate_left_def load_def store_def)
         apply (rule state_of_eqI)
           apply (simp add: heap_tree_plug)
          apply (simp; blast)
         apply simp
        apply (rule state_of_eqI)
          apply (simp add: heap_tree_plug)
         apply (simp; blast)
        apply simp
        done
    qed
  qed
qed

lemma rotate_right_state:
  assumes d: "distinct (addrs (plug c (Nd (Nd a y ky vy cy b) x kx vx cx d)))"
  shows "rotate_right (Some x) (state_of (plug c (Nd (Nd a y ky vy cy b) x kx vx cx d)) p n)
       = Some (state_of (plug c (Nd a y ky vy cy (Nd b x kx vx cx d))) p n)"
proof -
  let ?T = "plug c (Nd (Nd a y ky vy cy b) x kx vx cx d)"
  let ?T' = "plug c (Nd a y ky vy cy (Nd b x kx vx cx d))"
  define h where "h = heap_of None ?T"
  have ht: "heap_tree h None ?T" unfolding h_def using d by (rule heap_tree_heap_of)
  have dom: "dom h = set (addrs ?T)" unfolding h_def by (rule dom_heap_of)
  have s: "state_of ?T p n = \<lparr>heap = h, pool = p, root = ptr_of ?T, size_m = n\<rparr>"
    by (simp add: state_of_def h_def)
  from ht have cells:
    "h x = Some \<lparr>key = kx, val = vx, left = Some y, right = ptr_of d, parent = cpar c, color = cx\<rparr>"
    "h y = Some \<lparr>key = ky, val = vy, left = ptr_of a, right = ptr_of b, parent = Some x, color = cy\<rparr>"
    "heap_tree h (Some y) a" "heap_tree h (Some y) b" "heap_tree h (Some x) d"
    "heap_ctx h c (Some x)"
    by (simp_all add: heap_tree_plug)
  show ?thesis
  proof (cases c)
    case Nil
    show ?thesis
    proof (cases b)
      case Lf
      show ?thesis unfolding s using d cells Nil Lf dom
        apply (simp add: rotate_right_def load_def store_def)
        apply (rule state_of_eqI)
        apply (simp add: heap_tree_plug)
         apply (simp; blast)
        apply simp
        done
    next
      case (Nd bl br bk bv bc bb)
      show ?thesis unfolding s using d cells Nil Nd dom
        apply (simp add: rotate_right_def load_def store_def)
        apply (rule state_of_eqI)
        apply (simp add: heap_tree_plug)
         apply (simp; blast)
        apply simp
        done
    qed
  next
    case (Cons f c')
    have r: "ptr_of ?T = ptr_of ?T'" using Cons by (intro ptr_of_plug) simp
    show ?thesis
    proof (cases b)
      case Lf
      show ?thesis unfolding s using d cells Cons Lf dom r
        apply (cases f)
        apply (simp_all add: rotate_right_def load_def store_def)
         apply (rule state_of_eqI)
           apply (simp add: heap_tree_plug)
          apply (simp; blast)
         apply simp
        apply (rule state_of_eqI)
          apply (simp add: heap_tree_plug)
         apply (simp; blast)
        apply simp
        done
    next
      case (Nd bl br bk bv bc bb)
      show ?thesis unfolding s using d cells Cons Nd dom r
        apply (cases f)
        apply (simp_all add: rotate_right_def load_def store_def)
         apply (rule state_of_eqI)
           apply (simp add: heap_tree_plug)
          apply (simp; blast)
         apply simp
        apply (rule state_of_eqI)
          apply (simp add: heap_tree_plug)
         apply (simp; blast)
        apply simp
        done
    qed
  qed
qed



subsection \<open>Rotations by address\<close>

fun rotl :: "nat \<Rightarrow> ('k, 'v) tree \<Rightarrow> ('k, 'v) tree" where
  "rotl x Lf = Lf"
| "rotl x (Nd l a k v c r) =
     (if x = a then (case r of Lf \<Rightarrow> Nd l a k v c r
                     | Nd rl y ky vy cy rr \<Rightarrow> Nd (Nd l a k v c rl) y ky vy cy rr)
      else Nd (rotl x l) a k v c (rotl x r))"

fun rotl_ok :: "nat \<Rightarrow> ('k, 'v) tree \<Rightarrow> bool" where
  "rotl_ok x Lf = False"
| "rotl_ok x (Nd l a k v c r) = (if x = a then r \<noteq> Lf else rotl_ok x l \<or> rotl_ok x r)"

fun rotr :: "nat \<Rightarrow> ('k, 'v) tree \<Rightarrow> ('k, 'v) tree" where
  "rotr x Lf = Lf"
| "rotr x (Nd l a k v c r) =
     (if x = a then (case l of Lf \<Rightarrow> Nd l a k v c r
                     | Nd ll y ky vy cy lr \<Rightarrow> Nd ll y ky vy cy (Nd lr a k v c r))
      else Nd (rotr x l) a k v c (rotr x r))"

fun rotr_ok :: "nat \<Rightarrow> ('k, 'v) tree \<Rightarrow> bool" where
  "rotr_ok x Lf = False"
| "rotr_ok x (Nd l a k v c r) = (if x = a then l \<noteq> Lf else rotr_ok x l \<or> rotr_ok x r)"

lemma plug_append: "plug (c1 @ c2) t = plug c2 (plug c1 t)"
  by (induction c1 arbitrary: t) auto

lemma addrs_rotl [simp]: "addrs (rotl x t) = addrs t"
  by (induction t) (auto split: tree.splits)

lemma addrs_rotr [simp]: "addrs (rotr x t) = addrs t"
  by (induction t) (auto split: tree.splits)

lemma rotl_notin [simp]: "x \<notin> set (addrs t) \<Longrightarrow> rotl x t = t"
  by (induction t) auto

lemma rotr_notin [simp]: "x \<notin> set (addrs t) \<Longrightarrow> rotr x t = t"
  by (induction t) auto

lemma rotl_ok_notin [simp]: "x \<notin> set (addrs t) \<Longrightarrow> \<not> rotl_ok x t"
  by (induction t) auto

lemma rotr_ok_notin [simp]: "x \<notin> set (addrs t) \<Longrightarrow> \<not> rotr_ok x t"
  by (induction t) auto

lemma rotl_fill:
  "x \<noteq> faddr f \<Longrightarrow> x \<notin> set (addrs (fsib f)) \<Longrightarrow> rotl x (fill f t) = fill f (rotl x t)"
  by (cases f) auto

lemma rotr_fill:
  "x \<noteq> faddr f \<Longrightarrow> x \<notin> set (addrs (fsib f)) \<Longrightarrow> rotr x (fill f t) = fill f (rotr x t)"
  by (cases f) auto

lemma rotl_ok_fill:
  "x \<noteq> faddr f \<Longrightarrow> x \<notin> set (addrs (fsib f)) \<Longrightarrow> rotl_ok x (fill f t) = rotl_ok x t"
  by (cases f) auto

lemma rotr_ok_fill:
  "x \<noteq> faddr f \<Longrightarrow> x \<notin> set (addrs (fsib f)) \<Longrightarrow> rotr_ok x (fill f t) = rotr_ok x t"
  by (cases f) auto

lemma plug_step_notin:
  assumes "distinct (addrs (plug (f # c) t))" "x \<in> set (addrs t)"
  shows "x \<noteq> faddr f" "x \<notin> set (addrs (fsib f))" "distinct (addrs (plug c (fill f t)))"
    "x \<in> set (addrs (fill f t))"
  using assms by (auto simp: distinct_fill set_addrs_fill)

lemma rotl_plug:
  "distinct (addrs (plug c t)) \<Longrightarrow> x \<in> set (addrs t) \<Longrightarrow> rotl x (plug c t) = plug c (rotl x t)"
proof (induction c arbitrary: t)
  case Nil
  then show ?case by simp
next
  case (Cons f c)
  note n = plug_step_notin[OF Cons.prems]
  show ?case using Cons.IH[OF n(3,4)] rotl_fill[OF n(1,2)] by simp
qed

lemma rotr_plug:
  "distinct (addrs (plug c t)) \<Longrightarrow> x \<in> set (addrs t) \<Longrightarrow> rotr x (plug c t) = plug c (rotr x t)"
proof (induction c arbitrary: t)
  case Nil
  then show ?case by simp
next
  case (Cons f c)
  note n = plug_step_notin[OF Cons.prems]
  show ?case using Cons.IH[OF n(3,4)] rotr_fill[OF n(1,2)] by simp
qed

lemma rotl_ok_plug:
  "distinct (addrs (plug c t)) \<Longrightarrow> x \<in> set (addrs t) \<Longrightarrow> rotl_ok x (plug c t) = rotl_ok x t"
proof (induction c arbitrary: t)
  case Nil
  then show ?case by simp
next
  case (Cons f c)
  note n = plug_step_notin[OF Cons.prems]
  show ?case using Cons.IH[OF n(3,4)] rotl_ok_fill[OF n(1,2)] by simp
qed

lemma rotr_ok_plug:
  "distinct (addrs (plug c t)) \<Longrightarrow> x \<in> set (addrs t) \<Longrightarrow> rotr_ok x (plug c t) = rotr_ok x t"
proof (induction c arbitrary: t)
  case Nil
  then show ?case by simp
next
  case (Cons f c)
  note n = plug_step_notin[OF Cons.prems]
  show ?case using Cons.IH[OF n(3,4)] rotr_ok_fill[OF n(1,2)] by simp
qed

lemma rotl_focus:
  "rotl_ok x t \<Longrightarrow>
   \<exists>c a kx vx cx b y ky vy cy d. t = plug c (Nd a x kx vx cx (Nd b y ky vy cy d))"
proof (induction t)
  case Lf
  then show ?case by simp
next
  case (Nd l a k v col r)
  show ?case
  proof (cases "x = a")
    case True
    then obtain b y ky vy cy d where "r = Nd b y ky vy cy d" using Nd.prems by (cases r) auto
    then have "Nd l a k v col r = plug [] (Nd l x k v col (Nd b y ky vy cy d))" using True by simp
    then show ?thesis by blast
  next
    case False
    then consider "rotl_ok x l" | "rotl_ok x r" using Nd.prems by auto
    then show ?thesis
    proof cases
      case 1
      then obtain c a' kx vx cx b y ky vy cy d
        where "l = plug c (Nd a' x kx vx cx (Nd b y ky vy cy d))" using Nd.IH(1) by blast
      then have "Nd l a k v col r = plug (c @ [InL a k v col r]) (Nd a' x kx vx cx (Nd b y ky vy cy d))"
        by (simp add: plug_append)
      then show ?thesis by blast
    next
      case 2
      then obtain c a' kx vx cx b y ky vy cy d
        where "r = plug c (Nd a' x kx vx cx (Nd b y ky vy cy d))" using Nd.IH(2) by blast
      then have "Nd l a k v col r = plug (c @ [InR l a k v col]) (Nd a' x kx vx cx (Nd b y ky vy cy d))"
        by (simp add: plug_append)
      then show ?thesis by blast
    qed
  qed
qed

lemma rotr_focus:
  "rotr_ok x t \<Longrightarrow>
   \<exists>c a y ky vy cy b kx vx cx d. t = plug c (Nd (Nd a y ky vy cy b) x kx vx cx d)"
proof (induction t)
  case Lf
  then show ?case by simp
next
  case (Nd l a k v col r)
  show ?case
  proof (cases "x = a")
    case True
    then obtain a' y ky vy cy b where "l = Nd a' y ky vy cy b" using Nd.prems by (cases l) auto
    then have "Nd l a k v col r = plug [] (Nd (Nd a' y ky vy cy b) x k v col r)" using True by simp
    then show ?thesis by blast
  next
    case False
    then consider "rotr_ok x l" | "rotr_ok x r" using Nd.prems by auto
    then show ?thesis
    proof cases
      case 1
      then obtain c a' y ky vy cy b kx vx cx d
        where "l = plug c (Nd (Nd a' y ky vy cy b) x kx vx cx d)" using Nd.IH(1) by blast
      then have "Nd l a k v col r = plug (c @ [InL a k v col r]) (Nd (Nd a' y ky vy cy b) x kx vx cx d)"
        by (simp add: plug_append)
      then show ?thesis by blast
    next
      case 2
      then obtain c a' y ky vy cy b kx vx cx d
        where "r = plug c (Nd (Nd a' y ky vy cy b) x kx vx cx d)" using Nd.IH(2) by blast
      then have "Nd l a k v col r = plug (c @ [InR l a k v col]) (Nd (Nd a' y ky vy cy b) x kx vx cx d)"
        by (simp add: plug_append)
      then show ?thesis by blast
    qed
  qed
qed

lemma rotate_left_at:
  assumes "distinct (addrs t)" "rotl_ok x t"
  shows "rotate_left (Some x) (state_of t p n) = Some (state_of (rotl x t) p n)"
proof -
  obtain c a kx vx cx b y ky vy cy d where t: "t = plug c (Nd a x kx vx cx (Nd b y ky vy cy d))"
    using rotl_focus[OF assms(2)] by blast
  have "rotl x t = plug c (rotl x (Nd a x kx vx cx (Nd b y ky vy cy d)))"
    unfolding t using assms(1) by (intro rotl_plug) (simp_all add: t)
  then have "rotl x t = plug c (Nd (Nd a x kx vx cx b) y ky vy cy d)" by simp
  then show ?thesis using rotate_left_state[of c a x kx vx cx b y ky vy cy d p n] assms(1)
    by (simp add: t)
qed

lemma rotate_right_at:
  assumes "distinct (addrs t)" "rotr_ok x t"
  shows "rotate_right (Some x) (state_of t p n) = Some (state_of (rotr x t) p n)"
proof -
  obtain c a y ky vy cy b kx vx cx d where t: "t = plug c (Nd (Nd a y ky vy cy b) x kx vx cx d)"
    using rotr_focus[OF assms(2)] by blast
  have "rotr x t = plug c (rotr x (Nd (Nd a y ky vy cy b) x kx vx cx d))"
    unfolding t using assms(1) by (intro rotr_plug) (simp_all add: t)
  then have "rotr x t = plug c (Nd a y ky vy cy (Nd b x kx vx cx d))" by simp
  then show ?thesis using rotate_right_state[of c a y ky vy cy b x kx vx cx d p n] assms(1)
    by (simp add: t)
qed

lemma heap_of_fill_root: "heap_of par (fill f t) (faddr f) = Some (fnode f (ptr_of t) par)"
  by (cases f) auto

lemma load_None [simp]: "load f None s = None"
  by (simp add: load_def)

lemma store_None [simp]: "store f None s = None"
  by (simp add: store_def)

lemma root_state_of [simp]: "root (state_of t p n) = ptr_of t"
  by (simp add: state_of_def)

lemma pool_state_of [simp]: "pool (state_of t p n) = p"
  by (simp add: state_of_def)

lemma size_state_of [simp]: "size_m (state_of t p n) = n"
  by (simp add: state_of_def)

lemma heap_state_of [simp]: "heap (state_of t p n) = heap_of None t"
  by (simp add: state_of_def)

fun rcolor :: "('k, 'v) tree \<Rightarrow> color" where
  "rcolor Lf = BLACK"
| "rcolor (Nd l a k v c r) = c"

fun blacken :: "('k, 'v) tree \<Rightarrow> ('k, 'v) tree" where
  "blacken Lf = Lf"
| "blacken (Nd l a k v c r) = Nd l a k v BLACK r"

fun fcolor :: "('k, 'v) frame \<Rightarrow> color" where
  "fcolor (InL a k v c r) = c"
| "fcolor (InR l a k v c) = c"

fun fpaint :: "color \<Rightarrow> ('k, 'v) frame \<Rightarrow> ('k, 'v) frame" where
  "fpaint c' (InL a k v c r) = InL a k v c' r"
| "fpaint c' (InR l a k v c) = InR l a k v c'"

fun ins_step :: "('k, 'v) frame list \<Rightarrow> ('k, 'v) tree \<Rightarrow> (('k, 'v) frame list \<times> ('k, 'v) tree) option" where
  "ins_step (InL p kp vp cp r # InL g kg vg cg u # c) (Nd ta z kz vz cz tb) =
     (if rcolor u = RED
      then Some (c, Nd (Nd (Nd ta z kz vz cz tb) p kp vp BLACK r) g kg vg RED (blacken u))
      else Some (InL p kp vp BLACK (Nd r g kg vg RED u) # c, Nd ta z kz vz cz tb))"
| "ins_step (InR l p kp vp cp # InL g kg vg cg u # c) (Nd ta z kz vz cz tb) =
     (if rcolor u = RED
      then Some (c, Nd (Nd l p kp vp BLACK (Nd ta z kz vz cz tb)) g kg vg RED (blacken u))
      else Some (InL z kz vz BLACK (Nd tb g kg vg RED u) # c, Nd l p kp vp cp ta))"
| "ins_step (InR l p kp vp cp # InR u g kg vg cg # c) (Nd ta z kz vz cz tb) =
     (if rcolor u = RED
      then Some (c, Nd (blacken u) g kg vg RED (Nd l p kp vp BLACK (Nd ta z kz vz cz tb)))
      else Some (InR (Nd u g kg vg RED l) p kp vp BLACK # c, Nd ta z kz vz cz tb))"
| "ins_step (InL p kp vp cp r # InR u g kg vg cg # c) (Nd ta z kz vz cz tb) =
     (if rcolor u = RED
      then Some (c, Nd (blacken u) g kg vg RED (Nd (Nd ta z kz vz cz tb) p kp vp BLACK r))
      else Some (InR (Nd u g kg vg RED ta) z kz vz BLACK # c, Nd tb p kp vp cp r))"
| "ins_step c t = None"

lemmas heap_simps =
  load_state_of set_color_state_of paint_plug rotate_left_at rotate_right_at
  rotl_plug rotr_plug rotl_ok_plug rotr_ok_plug nonnull_red_def null_or_black_def

lemma fix_insert_body_refines:
  assumes "distinct (addrs (plug c (Nd ta z kz vz cz tb)))"
    and "ins_step c (Nd ta z kz vz cz tb) = Some (c', t')"
  shows "fix_insert_body (Some z) (state_of (plug c (Nd ta z kz vz cz tb)) p n)
       = Some (ptr_of t', state_of (plug c' t') p n)"
proof -
  obtain fp fg c0 where c: "c = fp # fg # c0"
    using assms(2) by (cases c; cases "tl c") auto
  obtain u where u: "u = fsib fg" by simp
  consider (red) ul ua ku vu ur where "u = Nd ul ua ku vu RED ur"
    | (black) ul ua ku vu ur where "u = Nd ul ua ku vu BLACK ur" | (leaf) "u = Lf"
    by (cases u; cases "rcolor u") auto
  then show ?thesis
  proof cases
    case red
    then show ?thesis using assms(1) assms(2)[symmetric] c u
      by (cases fp; cases fg) (simp_all add: fix_insert_body_def heap_simps)
  next
    case black
    then show ?thesis using assms(1) assms(2)[symmetric] c u
      by (cases fp; cases fg) (simp_all add: fix_insert_body_def heap_simps)
  next
    case leaf
    then show ?thesis using assms(1) assms(2)[symmetric] c u
      by (cases fp; cases fg) (simp_all add: fix_insert_body_def heap_simps)
  qed
qed

subsection \<open>In-order contents\<close>

fun inorder :: "('k, 'v) tree \<Rightarrow> (nat \<times> 'k \<times> 'v) list" where
  "inorder Lf = []"
| "inorder (Nd l a k v c r) = inorder l @ (a, k, v) # inorder r"

fun cbefore :: "('k, 'v) frame list \<Rightarrow> (nat \<times> 'k \<times> 'v) list" where
  "cbefore [] = []"
| "cbefore (InL a k v c r # fs) = cbefore fs"
| "cbefore (InR l a k v c # fs) = cbefore fs @ inorder l @ [(a, k, v)]"

fun cafter :: "('k, 'v) frame list \<Rightarrow> (nat \<times> 'k \<times> 'v) list" where
  "cafter [] = []"
| "cafter (InL a k v c r # fs) = (a, k, v) # inorder r @ cafter fs"
| "cafter (InR l a k v c # fs) = cafter fs"

lemma inorder_plug: "inorder (plug c t) = cbefore c @ inorder t @ cafter c"
proof (induction c arbitrary: t)
  case Nil
  then show ?case by simp
next
  case (Cons f c)
  then show ?case by (cases f) simp_all
qed

lemma addrs_inorder: "addrs t = map fst (inorder t)"
  by (induction t) auto

lemma inorder_eq_addrs: "inorder t = inorder t' \<Longrightarrow> addrs t = addrs t'"
  by (simp add: addrs_inorder)

lemma inorder_plug_cong: "inorder t = inorder t' \<Longrightarrow> inorder (plug c t) = inorder (plug c t')"
  by (simp add: inorder_plug)

lemma inorder_blacken [simp]: "inorder (blacken t) = inorder t"
  by (cases t) auto

lemma inorder_fill_fpaint [simp]: "inorder (fill (fpaint c f) t) = inorder (fill f t)"
  by (cases f) auto

subsection \<open>The insert fixup on trees\<close>

fun parent_red :: "('k, 'v) frame list \<Rightarrow> bool" where
  "parent_red [] = False"
| "parent_red (f # c) = (fcolor f = RED)"

lemma ins_step_length: "ins_step c t = Some (c', t') \<Longrightarrow> length c' < length c"
  by (induction c t rule: ins_step.induct) (auto split: if_splits)

lemma ins_step_inorder:
  "ins_step c t = Some (c', t') \<Longrightarrow> inorder (plug c' t') = inorder (plug c t)"
  by (induction c t rule: ins_step.induct) (auto simp: inorder_plug split: if_splits)

lemma ins_step_nonleaf: "ins_step c t = Some (c', t') \<Longrightarrow> t \<noteq> Lf \<Longrightarrow> t' \<noteq> Lf"
  by (induction c t rule: ins_step.induct) (auto split: if_splits)

function ins_fix :: "('k, 'v) frame list \<Rightarrow> ('k, 'v) tree \<Rightarrow> (('k, 'v) frame list \<times> ('k, 'v) tree) option" where
  "ins_fix c t =
     (if parent_red c
      then (case ins_step c t of None \<Rightarrow> None | Some (c', t') \<Rightarrow> ins_fix c' t')
      else Some (c, t))"
  by pat_completeness auto
termination
  by (relation "measure (\<lambda>(c, t). length c)") (auto dest: ins_step_length)

declare ins_fix.simps [simp del]

lemma color_fnode [simp]: "color (fnode f hole par) = fcolor f"
  by (cases f) auto

lemma fix_insert_cond_state:
  assumes "distinct (addrs (plug c (Nd ta z kz vz cz tb)))"
  shows "fix_insert_cond (Some z) (state_of (plug c (Nd ta z kz vz cz tb)) p n) = Some (parent_red c)"
proof (cases c)
  case Nil
  then show ?thesis using assms by (simp add: fix_insert_cond_def heap_simps load_state_of[of "[]", simplified])
next
  case (Cons f c')
  then show ?thesis using assms
    by (cases f) (auto simp add: fix_insert_cond_def heap_simps)
qed

lemma fix_insert_loop_refines:
  "distinct (addrs (plug c t)) \<Longrightarrow> t \<noteq> Lf \<Longrightarrow> ins_fix c t = Some (c', t') \<Longrightarrow>
   fix_insert_loop (ptr_of t) (state_of (plug c t) p n) = Some (state_of (plug c' t') p n)"
proof (induction c t rule: ins_fix.induct)
  case (1 c t)
  obtain ta z kz vz cz tb where t: "t = Nd ta z kz vz cz tb" using "1.prems"(2) by (cases t) auto
  have cond: "fix_insert_cond (Some z) (state_of (plug c t) p n) = Some (parent_red c)"
    using "1.prems"(1) unfolding t by (rule fix_insert_cond_state)
  show ?case
  proof (cases "parent_red c")
    case False
    then have "c' = c" "t' = t" using "1.prems"(3) by (simp_all add: ins_fix.simps)
    then show ?thesis using False cond
      by (subst fix_insert_loop.simps) (simp add: t)
  next
    case True
    then obtain c1 t1 where st: "ins_step c t = Some (c1, t1)" and fx: "ins_fix c1 t1 = Some (c', t')"
      using "1.prems"(3) by (subst (asm) ins_fix.simps) (auto split: option.splits)
    have body: "fix_insert_body (Some z) (state_of (plug c t) p n) = Some (ptr_of t1, state_of (plug c1 t1) p n)"
      using "1.prems"(1) st unfolding t by (rule fix_insert_body_refines)
    have "addrs (plug c1 t1) = addrs (plug c t)"
      using ins_step_inorder[OF st] by (rule inorder_eq_addrs)
    then have d1: "distinct (addrs (plug c1 t1))" using "1.prems"(1) by simp
    have n1: "t1 \<noteq> Lf" using st "1.prems"(2) by (rule ins_step_nonleaf)
    have "fix_insert_loop (ptr_of t1) (state_of (plug c1 t1) p n) = Some (state_of (plug c' t') p n)"
      using True st d1 n1 fx by (intro "1.IH") auto
    then show ?thesis using True cond body
      by (subst fix_insert_loop.simps) (simp add: t)
  qed
qed

lemma paint_root: "ptr_of t = Some a \<Longrightarrow> paint a c t = (case t of Lf \<Rightarrow> Lf | Nd l b k v c0 r \<Rightarrow> Nd l b k v c r)"
  by (cases t) auto

lemma set_root_black:
  assumes "distinct (addrs t)" "t \<noteq> Lf"
  shows "store (\<lambda>n. n\<lparr>color := BLACK\<rparr>) (ptr_of t) (state_of t p n) = Some (state_of (blacken t) p n)"
  using assms set_color_state_of[of t _ BLACK p n] by (cases t) auto

lemma plug_nonleaf [simp]: "t \<noteq> Lf \<Longrightarrow> plug c t \<noteq> Lf"
  by (induction c arbitrary: t) (auto elim: fill.elims)

lemma fill_nonleaf [simp]: "fill f t \<noteq> Lf"
  by (cases f) auto

lemma plug_eq_Lf [simp]: "plug c t = Lf \<longleftrightarrow> c = [] \<and> t = Lf"
  by (induction c arbitrary: t) auto

lemma ins_fix_inorder:
  "ins_fix c t = Some (c', t') \<Longrightarrow> inorder (plug c' t') = inorder (plug c t)"
proof (induction c t rule: ins_fix.induct)
  case (1 c t)
  show ?case
  proof (cases "parent_red c")
    case False
    then show ?thesis using "1.prems" by (simp add: ins_fix.simps)
  next
    case True
    then obtain c1 t1 where st: "ins_step c t = Some (c1, t1)" and fx: "ins_fix c1 t1 = Some (c', t')"
      using "1.prems" by (subst (asm) ins_fix.simps) (auto split: option.splits)
    show ?thesis using "1.IH"[OF True st refl fx] ins_step_inorder[OF st] by simp
  qed
qed

lemma ins_fix_nonleaf: "ins_fix c t = Some (c', t') \<Longrightarrow> t \<noteq> Lf \<Longrightarrow> t' \<noteq> Lf"
proof (induction c t rule: ins_fix.induct)
  case (1 c t)
  show ?case
  proof (cases "parent_red c")
    case False
    then show ?thesis using "1.prems" by (simp add: ins_fix.simps)
  next
    case True
    then obtain c1 t1 where st: "ins_step c t = Some (c1, t1)" and fx: "ins_fix c1 t1 = Some (c', t')"
      using "1.prems" by (subst (asm) ins_fix.simps) (auto split: option.splits)
    show ?thesis using "1.IH"[OF True st refl fx] ins_step_nonleaf[OF st] "1.prems"(2) by simp
  qed
qed

lemma fix_insert_refines:
  assumes "distinct (addrs (plug c t))" "t \<noteq> Lf" "ins_fix c t = Some (c', t')"
  shows "fix_insert (ptr_of t) (state_of (plug c t) p n) = Some (state_of (blacken (plug c' t')) p n)"
proof -
  have "addrs (plug c' t') = addrs (plug c t)"
    using ins_fix_inorder[OF assms(3)] by (rule inorder_eq_addrs)
  then have d: "distinct (addrs (plug c' t'))" using assms(1) by simp
  have n: "plug c' t' \<noteq> Lf" using ins_fix_nonleaf[OF assms(3,2)] by simp
  show ?thesis
    using fix_insert_loop_refines[OF assms, of p n] set_root_black[OF d n, of p n]
    by (simp add: fix_insert_def)
qed

subsection \<open>The descent\<close>

fun descend :: "'k::linorder \<Rightarrow> ('k, 'v) frame list \<Rightarrow> ('k, 'v) tree
    \<Rightarrow> ('k, 'v) frame list \<times> ('k, 'v) tree" where
  "descend x c Lf = (c, Lf)"
| "descend x c (Nd l a k v col r) =
     (if x = k then (c, Nd l a k v col r)
      else if x < k then descend x (InL a k v col r # c) l
      else descend x (InR l a k v col # c) r)"

lemma plug_descend: "descend x c t = (c', t') \<Longrightarrow> plug c' t' = plug c t"
  by (induction x c t rule: descend.induct) (auto split: if_splits)

lemma operator_index_loop_refines:
  "distinct (addrs (plug c t)) \<Longrightarrow>
   operator_index_loop x (ptr_of t) (cpar c) (state_of (plug c t) p n) =
     Some (case descend x c t of (c', t') \<Rightarrow> if t' = Lf then Inr (cpar c') else Inl (ptr_of t'))"
proof (induction x c t rule: descend.induct)
  case (1 x c)
  then show ?case by (subst operator_index_loop.simps) simp
next
  case (2 x c l a k v col r)
  have l: "x \<noteq> k \<Longrightarrow> x < k \<Longrightarrow> operator_index_loop x (ptr_of l) (Some a) (state_of (plug c (Nd l a k v col r)) p n) =
     Some (case descend x (InL a k v col r # c) l of (c', t') \<Rightarrow> if t' = Lf then Inr (cpar c') else Inl (ptr_of t'))"
    using "2.IH"(1) "2.prems" by simp
  have r: "x \<noteq> k \<Longrightarrow> \<not> x < k \<Longrightarrow> operator_index_loop x (ptr_of r) (Some a) (state_of (plug c (Nd l a k v col r)) p n) =
     Some (case descend x (InR l a k v col # c) r of (c', t') \<Rightarrow> if t' = Lf then Inr (cpar c') else Inl (ptr_of t'))"
    using "2.IH"(2) "2.prems" by simp
  show ?case using "2.prems" l r
    by (subst operator_index_loop.simps) (simp add: heap_simps)
qed


subsection \<open>Hanging a new node below a leaf position\<close>

fun dir_ok :: "'k::linorder \<Rightarrow> ('k, 'v) frame \<Rightarrow> bool" where
  "dir_ok x (InL a k v c r) = (x < k)"
| "dir_ok x (InR l a k v c) = (\<not> x < k)"

lemma link_new_node_state:
  assumes d: "distinct (addrs (plug c Lf))" and fresh: "a \<notin> set (addrs (plug c Lf))"
    and pc: "pool_create P = (a, P')" and dir: "c = [] \<or> dir_ok x (hd c)"
  shows "link_new_node x (cpar c) (state_of (plug c Lf) P n)
       = Some (Some a, state_of (plug c (Nd Lf a x default RED Lf)) P' n)"
proof (cases c)
  case Nil
  have "\<lparr>heap = [a \<mapsto> \<lparr>key = x, val = default, left = None, right = None, parent = None, color = RED\<rparr>],
         pool = P', root = Some a, size_m = n\<rparr> = state_of (Nd Lf a x default RED Lf) P' n"
    by (rule state_of_eqI) simp_all
  then show ?thesis using Nil pc
    by (simp add: link_new_node_def create_def store_def state_of_def)
next
  case (Cons f c')
  let ?T = "plug c Lf"
  define h where "h = heap_of None ?T"
  have ht: "heap_tree h None ?T" unfolding h_def using d by (rule heap_tree_heap_of)
  have dom: "dom h = set (addrs ?T)" unfolding h_def by (rule dom_heap_of)
  have s: "state_of ?T P n = \<lparr>heap = h, pool = P, root = ptr_of ?T, size_m = n\<rparr>"
    by (simp add: state_of_def h_def)
  have r1: "ptr_of ?T = ptr_of (plug c (Nd Lf a x default RED Lf))"
    unfolding Cons by (rule ptr_of_plug) simp
  have r2: "ptr_of ?T \<noteq> None" using Cons by simp
  note r = r1 r2
  from ht have cells:
    "h (faddr f) = Some (fnode f None (cpar c'))" "heap_tree h (Some (faddr f)) (fsib f)"
    "heap_ctx h c' (Some (faddr f))"
    using Cons by (simp_all add: heap_tree_plug heap_tree_fill)
  show ?thesis unfolding s using d fresh pc dir cells Cons dom r
    apply (cases f)
     apply (simp_all add: link_new_node_def create_def store_def load_def)
     apply (rule state_of_eqI)
       apply (simp add: heap_tree_plug)
      apply (simp; blast)
     apply simp
    apply (rule state_of_eqI)
      apply (simp add: heap_tree_plug)
     apply (simp; blast)
    apply simp
    done
qed

section \<open>Red-black and search-tree invariants on trees\<close>

fun bh :: "('k, 'v) tree \<Rightarrow> nat" where
  "bh Lf = 0"
| "bh (Nd l a k v c r) = bh l + (if c = BLACK then 1 else 0)"

fun balanced :: "('k, 'v) tree \<Rightarrow> bool" where
  "balanced Lf = True"
| "balanced (Nd l a k v c r) = (balanced l \<and> balanced r \<and> bh l = bh r)"

fun rr_ok :: "('k, 'v) tree \<Rightarrow> bool" where
  "rr_ok Lf = True"
| "rr_ok (Nd l a k v c r) =
     (rr_ok l \<and> rr_ok r \<and> (c = RED \<longrightarrow> rcolor l = BLACK \<and> rcolor r = BLACK))"

definition rbt :: "('k, 'v) tree \<Rightarrow> bool" where
  "rbt t \<longleftrightarrow> balanced t \<and> rr_ok t \<and> rcolor t = BLACK"

definition keys :: "('k, 'v) tree \<Rightarrow> 'k list" where
  "keys t = map (\<lambda>e. fst (snd e)) (inorder t)"

definition entries :: "('k, 'v) tree \<Rightarrow> ('k \<times> 'v) list" where
  "entries t = map snd (inorder t)"

definition bst :: "('k::linorder, 'v) tree \<Rightarrow> bool" where
  "bst t \<longleftrightarrow> sorted_wrt (<) (keys t)"

text \<open>What a context demands of the subtree in its hole.\<close>

fun fblack :: "('k, 'v) frame \<Rightarrow> nat" where
  "fblack f = (if fcolor f = BLACK then 1 else 0)"

fun cbal :: "('k, 'v) frame list \<Rightarrow> nat \<Rightarrow> bool" where
  "cbal [] n = True"
| "cbal (f # c) n = (balanced (fsib f) \<and> bh (fsib f) = n \<and> cbal c (n + fblack f))"

fun crr :: "('k, 'v) frame list \<Rightarrow> color \<Rightarrow> bool" where
  "crr [] col = True"
| "crr (f # c) col =
     (rr_ok (fsib f) \<and> (fcolor f = RED \<longrightarrow> col = BLACK \<and> rcolor (fsib f) = BLACK) \<and> crr c (fcolor f))"

fun croot :: "('k, 'v) frame list \<Rightarrow> color \<Rightarrow> color" where
  "croot [] col = col"
| "croot (f # c) col = croot c (fcolor f)"

lemma rcolor_fill [simp]: "rcolor (fill f t) = fcolor f"
  by (cases f) auto

lemma bh_fill: "balanced (fill f t) \<Longrightarrow> bh (fill f t) = bh t + fblack f"
  by (cases f) auto

lemma balanced_fill: "balanced (fill f t) \<longleftrightarrow> balanced t \<and> balanced (fsib f) \<and> bh (fsib f) = bh t"
  by (cases f) auto

lemma rr_ok_fill:
  "rr_ok (fill f t) \<longleftrightarrow>
     rr_ok t \<and> rr_ok (fsib f) \<and> (fcolor f = RED \<longrightarrow> rcolor t = BLACK \<and> rcolor (fsib f) = BLACK)"
  by (cases f) auto

lemma balanced_plug: "balanced (plug c t) \<longleftrightarrow> balanced t \<and> cbal c (bh t)"
proof (induction c arbitrary: t)
  case Nil
  then show ?case by simp
next
  case (Cons f c)
  show ?case using Cons[of "fill f t"] bh_fill[of f t]
    by (auto simp: balanced_fill simp del: fblack.simps)
qed

lemma bh_plug_cong: "bh t = bh t' \<Longrightarrow> balanced (plug c t) \<Longrightarrow> balanced t' \<Longrightarrow> bh (plug c t') = bh (plug c t)"
proof (induction c arbitrary: t t')
  case Nil
  then show ?case by simp
next
  case (Cons f c)
  have b: "balanced (fill f t)" using Cons.prems(2) by (simp add: balanced_plug)
  then have b': "balanced (fill f t')" using Cons.prems(1,3) by (simp add: balanced_fill)
  have "bh (fill f t) = bh (fill f t')" using b b' Cons.prems(1) by (simp add: bh_fill del: fblack.simps)
  then show ?case using Cons.IH[of "fill f t" "fill f t'"] Cons.prems(2) b' by simp
qed

lemma rr_ok_plug: "rr_ok (plug c t) \<longleftrightarrow> rr_ok t \<and> crr c (rcolor t)"
proof (induction c arbitrary: t)
  case Nil
  then show ?case by simp
next
  case (Cons f c)
  show ?case using Cons[of "fill f t"] by (auto simp: rr_ok_fill)
qed

lemma rcolor_plug: "rcolor (plug c t) = croot c (rcolor t)"
  by (induction c arbitrary: t) auto

lemma crr_weaken: "crr c col \<Longrightarrow> crr c BLACK"
  by (cases c) auto

lemma crr_black_parent: "crr c BLACK \<Longrightarrow> \<not> parent_red c \<Longrightarrow> crr c col"
  by (cases c) auto

lemma balanced_blacken [simp]: "balanced (blacken t) = balanced t"
  by (cases t) auto

lemma rr_ok_blacken: "rr_ok t \<Longrightarrow> rr_ok (blacken t)"
  by (cases t) auto

lemma rcolor_blacken [simp]: "rcolor (blacken t) = BLACK"
  by (cases t) auto

lemma bh_blacken_red: "rcolor t = RED \<Longrightarrow> bh (blacken t) = bh t + 1"
  by (cases t) auto

lemma color_neq [simp]: "c \<noteq> RED \<longleftrightarrow> c = BLACK" "c \<noteq> BLACK \<longleftrightarrow> c = RED"
  by (cases c; simp)+

subsection \<open>The insert fixup keeps the invariants\<close>

definition ins_inv :: "('k, 'v) frame list \<Rightarrow> ('k, 'v) tree \<Rightarrow> bool" where
  "ins_inv c t \<longleftrightarrow>
     t \<noteq> Lf \<and> rcolor t = RED \<and> rr_ok t \<and> balanced t \<and> cbal c (bh t) \<and> crr c BLACK \<and>
     croot c BLACK = BLACK"

lemma ins_step_inv:
  assumes "ins_inv c t" "parent_red c"
  shows "\<exists>c' t'. ins_step c t = Some (c', t') \<and> ins_inv c' t'"
proof -
  obtain ta z kz vz tb where t: "t = Nd ta z kz vz RED tb"
    using assms(1) by (cases t) (auto simp: ins_inv_def)
  obtain fp c1 where c1: "c = fp # c1" using assms(2) by (cases c) auto
  have "c1 \<noteq> []" using assms c1 by (auto simp: ins_inv_def)
  then obtain fg c0 where c: "c = fp # fg # c0" using c1 by (cases c1) auto
  show ?thesis using assms unfolding c t ins_inv_def
    by (cases fp; cases fg; cases "fsib fg") (auto split: if_splits)
qed

lemma ins_fix_inv:
  "ins_inv c t \<Longrightarrow> \<exists>c' t'. ins_fix c t = Some (c', t') \<and> ins_inv c' t' \<and> \<not> parent_red c'"
proof (induction c t rule: ins_fix.induct)
  case (1 c t)
  show ?case
  proof (cases "parent_red c")
    case False
    then show ?thesis using "1.prems" by (simp add: ins_fix.simps)
  next
    case True
    then obtain c1 t1 where st: "ins_step c t = Some (c1, t1)" and i1: "ins_inv c1 t1"
      using ins_step_inv[OF "1.prems"] by blast
    show ?thesis using "1.IH"[OF True st refl i1] True st by (simp add: ins_fix.simps)
  qed
qed

lemma ins_inv_final:
  assumes "ins_inv c t" "\<not> parent_red c"
  shows "rbt (blacken (plug c t))"
proof -
  have "crr c (rcolor t)" using assms by (auto simp: ins_inv_def intro: crr_black_parent)
  then have "rr_ok (plug c t)" using assms(1) by (simp add: rr_ok_plug ins_inv_def)
  moreover have "balanced (plug c t)" using assms(1) by (simp add: balanced_plug ins_inv_def)
  ultimately show ?thesis by (simp add: rbt_def rr_ok_blacken)
qed

lemma ins_inv_initial:
  assumes "rbt (plug c Lf)"
  shows "ins_inv c (Nd Lf a x v RED Lf)"
  using assms by (auto simp: rbt_def ins_inv_def balanced_plug rr_ok_plug rcolor_plug)

subsection \<open>The descent finds the key or its place\<close>

definition between :: "'k::linorder \<Rightarrow> ('k, 'v) frame list \<Rightarrow> bool" where
  "between x c \<longleftrightarrow>
     (\<forall>e \<in> set (cbefore c). fst (snd e) < x) \<and> (\<forall>e \<in> set (cafter c). x < fst (snd e))"

lemma keys_plug:
  "keys (plug c t) = map (\<lambda>e. fst (snd e)) (cbefore c) @ keys t @ map (\<lambda>e. fst (snd e)) (cafter c)"
  by (simp add: keys_def inorder_plug)

lemma keys_Nd [simp]: "keys (Nd l a k v col r) = keys l @ k # keys r"
  by (simp add: keys_def)

lemma keys_Lf [simp]: "keys Lf = []"
  by (simp add: keys_def)

lemma set_keys: "set (keys t) = (\<lambda>e. fst (snd e)) ` set (inorder t)"
  by (simp add: keys_def)

lemma between_Nil [simp]: "between x []"
  by (simp add: between_def)

lemma descend_between:
  "bst (plug c t) \<Longrightarrow> between x c \<Longrightarrow> descend x c t = (c', t') \<Longrightarrow> between x c'"
proof (induction x c t rule: descend.induct)
  case (1 x c)
  then show ?case by simp
next
  case (2 x c l a k v col r)
  have srt: "sorted_wrt (<) (keys l @ k # keys r)"
    using "2.prems"(1) by (simp add: bst_def keys_plug sorted_wrt_append)
  show ?case
  proof (cases "x = k")
    case True
    then show ?thesis using "2.prems" by simp
  next
    case ne: False
    show ?thesis
    proof (cases "x < k")
      case True
      have "between x (InL a k v col r # c)"
        using "2.prems"(2) True srt
        by (fastforce simp: between_def sorted_wrt_append set_keys)
      then show ?thesis using "2.IH"(1)[OF ne True] "2.prems" ne True by simp
    next
      case False
      then have "k < x" using ne by simp
      then have "between x (InR l a k v col # c)"
        using "2.prems"(2) srt
        by (fastforce simp: between_def sorted_wrt_append set_keys)
      then show ?thesis using "2.IH"(2)[OF ne False] "2.prems" ne False by simp
    qed
  qed
qed

lemma descend_found: "descend x c t = (c', Nd l a k v col r) \<Longrightarrow> k = x"
  by (induction x c t rule: descend.induct) (auto split: if_splits)

lemma descend_dir: "descend x c t = (c', t') \<Longrightarrow> c' = c \<or> (c' \<noteq> [] \<and> dir_ok x (hd c'))"
  by (induction x c t rule: descend.induct) (auto split: if_splits)

lemma between_notin:
  assumes "between x c"
  shows "x \<notin> set (keys (plug c Lf))"
  using assms by (fastforce simp: between_def keys_plug)

lemma bst_insert:
  assumes "bst (plug c Lf)" "between x c"
  shows "bst (plug c (Nd Lf a x v col Lf))"
  using assms by (fastforce simp: bst_def keys_plug between_def sorted_wrt_append)

section \<open>Erase: unlinking a node\<close>

text \<open>A tree in memory next to one unlinked cell that is not recycled yet.\<close>

definition state_g :: "('k, 'v) tree \<Rightarrow> nat \<Rightarrow> ('k, 'v) node \<Rightarrow> pool \<Rightarrow> nat \<Rightarrow> ('k, 'v) PooledMap" where
  "state_g t g nd p n = \<lparr>heap = (heap_of None t)(g \<mapsto> nd), pool = p, root = ptr_of t, size_m = n\<rparr>"

lemma state_g_eqI:
  "heap_tree h None t \<Longrightarrow> h g = Some nd \<Longrightarrow> dom h = insert g (set (addrs t)) \<Longrightarrow> g \<notin> set (addrs t) \<Longrightarrow>
   r = ptr_of t \<Longrightarrow> \<lparr>heap = h, pool = p, root = r, size_m = n\<rparr> = state_g t g nd p n"
proof -
  assume a: "heap_tree h None t" "h g = Some nd" "dom h = insert g (set (addrs t))"
    "g \<notin> set (addrs t)" "r = ptr_of t"
  have "h = (heap_of None t)(g \<mapsto> nd)"
  proof
    fix b
    show "h b = ((heap_of None t)(g \<mapsto> nd)) b"
    proof (cases "b = g")
      case True
      then show ?thesis using a(2) by simp
    next
      case False
      show ?thesis
      proof (cases "b \<in> set (addrs t)")
        case True
        then show ?thesis using heap_tree_lookup[OF a(1) True] False by simp
      next
        case nin: False
        then have "h b = None" using a(3) False by blast
        moreover have "heap_of None t b = None" using nin by simp
        ultimately show ?thesis using False by simp
      qed
    qed
  qed
  then show ?thesis using a(5) by (simp add: state_g_def)
qed

lemma recycle_state_g:
  "g \<notin> set (addrs t) \<Longrightarrow> recycle (Some g) (state_g t g nd p n) = Some (state_of t (pool_recycle g p) n)"
proof -
  assume "g \<notin> set (addrs t)"
  then have "heap_of None t g = None" by simp
  then have "((heap_of None t)(g \<mapsto> nd))(g := None) = heap_of None t" by (metis fun_upd_triv fun_upd_upd)
  then show ?thesis by (simp add: recycle_def state_g_def state_of_def)
qed

lemma load_at:
  "heap_of None t a = Some nd \<Longrightarrow> load f (Some a) (state_of t p n) = Some (f nd)"
  by (simp add: load_def state_of_def)

lemma load_g_tree:
  "heap_of None t a = Some nd' \<Longrightarrow> a \<noteq> g \<Longrightarrow> load f (Some a) (state_g t g nd p n) = Some (f nd')"
  by (simp add: load_def state_g_def)

lemma load_g_self: "load f (Some g) (state_g t g nd p n) = Some (f nd)"
  by (simp add: load_def state_g_def)

lemma store_g_self: "store f (Some g) (state_g t g nd p n) = Some (state_g t g (f nd) p n)"
  by (simp add: store_def state_g_def)

lemma store_same:
  "heap s a = Some nd \<Longrightarrow> f nd = nd \<Longrightarrow> store f (Some a) s = Some s"
proof -
  assume a: "heap s a = Some nd" "f nd = nd"
  then have "(heap s)(a \<mapsto> f nd) = heap s" by (metis fun_upd_triv)
  then show ?thesis using a by (simp add: store_def)
qed

subsection \<open>The leftmost node\<close>

fun split_min :: "('k, 'v) tree \<Rightarrow> ('k, 'v) frame list \<Rightarrow> ('k, 'v) frame list \<times> ('k, 'v) tree" where
  "split_min Lf cy = (cy, Lf)"
| "split_min (Nd l a k v c r) cy =
     (if l = Lf then (cy, Nd l a k v c r) else split_min l (InL a k v c r # cy))"

lemma split_min_acc: "split_min t cy = (fst (split_min t []) @ cy, snd (split_min t []))"
proof (induction t arbitrary: cy)
  case Lf
  then show ?case by simp
next
  case (Nd l a k v c r)
  show ?case using Nd.IH(1)[of "InL a k v c r # cy"] Nd.IH(1)[of "[InL a k v c r]"] by simp
qed

lemma split_min_plug: "split_min t cy = (cy', t') \<Longrightarrow> plug cy' t' = plug cy t"
  by (induction t cy rule: split_min.induct) (auto split: if_splits)

lemma split_min_shape:
  "split_min t cy = (cy', t') \<Longrightarrow> t \<noteq> Lf \<Longrightarrow> \<exists>y ky vy c yr. t' = Nd Lf y ky vy c yr"
  by (induction t cy rule: split_min.induct) (auto split: if_splits)

lemma split_min_before: "split_min t cy = (cy', t') \<Longrightarrow> cbefore cy' = cbefore cy"
  by (induction t cy rule: split_min.induct) (auto split: if_splits)

lemma minimum_refines:
  "distinct (addrs (plug c t)) \<Longrightarrow> t \<noteq> Lf \<Longrightarrow>
   minimum (ptr_of t) (state_of (plug c t) p n) = Some (ptr_of (snd (split_min t [])))"
proof (induction t arbitrary: c)
  case Lf
  then show ?case by simp
next
  case (Nd l a k v col r)
  show ?case
  proof (cases "l = Lf")
    case True
    then show ?thesis using Nd.prems
      by (subst minimum.simps) (simp add: heap_simps)
  next
    case False
    have "minimum (ptr_of l) (state_of (plug (InL a k v col r # c) l) p n) = Some (ptr_of (snd (split_min l [])))"
      using Nd.prems False by (intro Nd.IH(1)) simp_all
    moreover have "snd (split_min l [InL a k v col r]) = snd (split_min l [])"
      using split_min_acc[of l "[InL a k v col r]"] by simp
    ultimately show ?thesis using Nd.prems False
      by (subst minimum.simps) (simp add: heap_simps)
  qed
qed

subsection \<open>Splicing out a node that has at most one child\<close>

lemma parent_fnode [simp]: "parent (fnode f hole par) = par"
  by (cases f) auto

lemma transplant_only_child:
  assumes d: "distinct (addrs (plug (f # c) v))" and sib: "fsib f = Lf"
  shows "transplant (Some (faddr f)) (ptr_of v) (state_of (plug (f # c) v) p n)
       = Some (state_g (plug c v) (faddr f) (fnode f (ptr_of v) (cpar c)) p n)"
proof -
  let ?T = "plug (f # c) v"
  let ?u = "faddr f"
  define h where "h = heap_of None ?T"
  have ht: "heap_tree h None ?T" unfolding h_def using d by (rule heap_tree_heap_of)
  have dom: "dom h = set (addrs ?T)" unfolding h_def by (rule dom_heap_of)
  have s: "state_of ?T p n = \<lparr>heap = h, pool = p, root = ptr_of ?T, size_m = n\<rparr>"
    by (simp add: state_of_def h_def)
  from ht have cells:
    "h ?u = Some (fnode f (ptr_of v) (cpar c))" "heap_tree h (Some ?u) v" "heap_ctx h c (Some ?u)"
    by (simp_all add: heap_tree_plug heap_tree_fill)
  have nu: "?u \<notin> set (addrs v)" "?u \<notin> set (caddrs c)" using d by (auto simp: distinct_fill set_addrs_fill)
  have dv: "distinct (addrs v)" "distinct (caddrs c)" "set (addrs v) \<inter> set (caddrs c) = {}"
    using d by (auto simp: distinct_fill set_addrs_fill)
  have doms: "dom h = insert ?u (set (addrs v) \<union> set (caddrs c))"
    using dom sib by (auto simp: set_addrs_fill)
  have root_u: "c = [] \<Longrightarrow> ptr_of ?T = Some ?u" by simp
  show ?thesis
  proof (cases c)
    case Nil
    show ?thesis
    proof (cases v)
      case Lf
      show ?thesis unfolding s using cells nu dv doms Nil Lf
        apply (simp add: transplant_def load_def store_def)
        apply (rule state_g_eqI)
            apply simp_all
        done
    next
      case (Nd vl va vk vv vc vr)
      show ?thesis unfolding s using cells nu dv doms Nil Nd
        apply (simp add: transplant_def load_def store_def)
        apply (rule state_g_eqI)
            apply simp
           apply simp
          apply (simp; blast)
         apply simp
        apply simp
        done
    qed
  next
    case (Cons g c')
    have r: "ptr_of ?T = ptr_of (plug c v)"
      using Cons ptr_of_plug[of "g # c'" "fill f v" v] by simp
    have np: "Some ?u \<noteq> ptr_of (fsib g)" using d Cons by (cases g) (auto simp: distinct_fill set_addrs_fill)
    show ?thesis
    proof (cases v)
      case Lf
      show ?thesis unfolding s using cells nu dv doms Cons Lf r np
        apply (cases g)
         apply (simp_all add: transplant_def load_def store_def)
         apply (rule state_g_eqI)
             apply (simp add: heap_tree_plug)
            apply simp
           apply (simp; blast)
          apply simp
         apply simp
        apply (rule state_g_eqI)
            apply (simp add: heap_tree_plug)
           apply simp
          apply (simp; blast)
         apply simp
        apply simp
        done
    next
      case (Nd vl va vk vv vc vr)
      show ?thesis unfolding s using cells nu dv doms Cons Nd r np
        apply (cases g)
         apply (simp_all add: transplant_def load_def store_def)
         apply (rule state_g_eqI)
             apply (simp add: heap_tree_plug)
            apply simp
           apply (simp; blast)
          apply simp
         apply simp
        apply (rule state_g_eqI)
            apply (simp add: heap_tree_plug)
           apply simp
          apply (simp; blast)
         apply simp
        apply simp
        done
    qed
  qed
qed

lemma transplant_right_child:
  assumes "distinct (addrs (plug c (Nd Lf z kz vz cz r)))"
  shows "transplant (Some z) (ptr_of r) (state_of (plug c (Nd Lf z kz vz cz r)) p n)
       = Some (state_g (plug c r) z
                \<lparr>key = kz, val = vz, left = None, right = ptr_of r, parent = cpar c, color = cz\<rparr> p n)"
  using transplant_only_child[of "InR Lf z kz vz cz" c r p n] assms by simp

lemma transplant_left_child:
  assumes "distinct (addrs (plug c (Nd l z kz vz cz Lf)))"
  shows "transplant (Some z) (ptr_of l) (state_of (plug c (Nd l z kz vz cz Lf)) p n)
       = Some (state_g (plug c l) z
                \<lparr>key = kz, val = vz, left = ptr_of l, right = None, parent = cpar c, color = cz\<rparr> p n)"
  using transplant_only_child[of "InL z kz vz cz Lf" c l p n] assms by simp

lemma unlink_no_left:
  assumes "distinct (addrs (plug c (Nd Lf z kz vz cz r)))"
  shows "erase_unlink (Some z) (state_of (plug c (Nd Lf z kz vz cz r)) p n)
       = Some (cz, ptr_of r, cpar c,
               state_g (plug c r) z
                \<lparr>key = kz, val = vz, left = None, right = ptr_of r, parent = cpar c, color = cz\<rparr> p n)"
  using assms by (simp add: erase_unlink_def heap_simps transplant_right_child)

lemma unlink_no_right:
  assumes "distinct (addrs (plug c (Nd l z kz vz cz Lf)))" "l \<noteq> Lf"
  shows "erase_unlink (Some z) (state_of (plug c (Nd l z kz vz cz Lf)) p n)
       = Some (cz, ptr_of l, cpar c,
               state_g (plug c l) z
                \<lparr>key = kz, val = vz, left = ptr_of l, right = None, parent = cpar c, color = cz\<rparr> p n)"
  using assms by (simp add: erase_unlink_def heap_simps transplant_left_child)

lemma store_same_load:
  "load (\<lambda>n. f n = n) (Some a) s = Some True \<Longrightarrow> store f (Some a) s = Some s"
proof -
  assume "load (\<lambda>n. f n = n) (Some a) s = Some True"
  then obtain nd where "heap s a = Some nd" "f nd = nd"
    by (auto simp: load_def split: option.splits bind_splits)
  then show ?thesis by (rule store_same)
qed

lemma unlink_adjacent:
  assumes d: "distinct (addrs (plug c (Nd (Nd ll la kl vl cl lr) z kz vz cz (Nd Lf y ky vy ycol yr))))"
  shows "erase_unlink (Some z) (state_of (plug c (Nd (Nd ll la kl vl cl lr) z kz vz cz (Nd Lf y ky vy ycol yr))) p n)
       = Some (ycol, ptr_of yr, Some y,
               state_g (plug c (Nd (Nd ll la kl vl cl lr) y ky vy cz yr)) z
                \<lparr>key = kz, val = vz, left = Some la, right = Some y, parent = cpar c, color = cz\<rparr> p n)"
proof -
  let ?L = "Nd ll la kl vl cl lr"
  let ?T = "plug c (Nd ?L z kz vz cz (Nd Lf y ky vy ycol yr))"
  let ?T' = "plug c (Nd ?L y ky vy cz yr)"
  define h where "h = heap_of None ?T"
  have ht: "heap_tree h None ?T" unfolding h_def using d by (rule heap_tree_heap_of)
  have dom: "dom h = set (addrs ?T)" unfolding h_def by (rule dom_heap_of)
  have s: "state_of ?T p n = \<lparr>heap = h, pool = p, root = ptr_of ?T, size_m = n\<rparr>"
    by (simp add: state_of_def h_def)
  from ht have cells:
    "h z = Some \<lparr>key = kz, val = vz, left = Some la, right = Some y, parent = cpar c, color = cz\<rparr>"
    "h y = Some \<lparr>key = ky, val = vy, left = None, right = ptr_of yr, parent = Some z, color = ycol\<rparr>"
    "h la = Some \<lparr>key = kl, val = vl, left = ptr_of ll, right = ptr_of lr, parent = Some z, color = cl\<rparr>"
    "heap_tree h (Some la) ll" "heap_tree h (Some la) lr" "heap_tree h (Some y) yr"
    "heap_ctx h c (Some z)"
    by (simp_all add: heap_tree_plug)
  have min: "minimum (Some y) (state_of ?T p n) = Some (Some y)"
    using minimum_refines[of "InR ?L z kz vz cz # c" "Nd Lf y ky vy ycol yr" p n] d by simp
  let ?rest = "transplant (Some z) (Some y) (state_of ?T p n) \<bind> (\<lambda>s.
      load left (Some z) s \<bind> (\<lambda>zl. set_left (Some y) zl s \<bind> (\<lambda>s.
      load left (Some y) s \<bind> (\<lambda>yl. set_parent yl (Some y) s \<bind> (\<lambda>s.
      load color (Some z) s \<bind> (\<lambda>zc. set_color (Some y) zc s \<bind> (\<lambda>s.
      Some (ycol, ptr_of yr, Some y, s))))))))"
  let ?goal = "Some (ycol, ptr_of yr, Some y,
               state_g ?T' z
                \<lparr>key = kz, val = vz, left = Some la, right = Some y, parent = cpar c, color = cz\<rparr> p n)"
  have pre: "erase_unlink (Some z) (state_of ?T p n) = ?rest"
    using d min
    by (cases yr) (simp_all add: erase_unlink_def heap_simps store_same_load)
  have "?rest = ?goal"
  proof (cases c)
    case Nil
    show ?thesis unfolding s using d cells dom Nil
      apply (simp add: transplant_def load_def store_def)
      apply (rule state_g_eqI)
          apply (simp add: heap_tree_plug)
         apply simp
        apply (simp; blast)
       apply simp
      apply simp
      done
  next
    case (Cons g c')
    have r: "ptr_of ?T = ptr_of ?T'" using Cons by (intro ptr_of_plug) simp
    show ?thesis unfolding s using d cells dom Cons r
      apply (cases g)
       apply (simp_all add: transplant_def load_def store_def)
       apply (rule state_g_eqI)
           apply (simp add: heap_tree_plug)
          apply simp
         apply (simp; blast)
        apply simp
       apply simp
      apply (rule state_g_eqI)
          apply (simp add: heap_tree_plug)
         apply simp
        apply (simp; blast)
       apply simp
      apply simp
      done
  qed
  then show ?thesis using pre by simp
qed


lemma unlink_deep:
  assumes d: "distinct (addrs (plug c (Nd (Nd ll la kl vl cl lr) z kz vz cz (Nd rl ra kr vr cr rr))))"
    and sm: "split_min rl [] = (ci, Nd Lf y ky vy ycol yr)" and rl: "rl \<noteq> Lf"
  shows "erase_unlink (Some z) (state_of (plug c (Nd (Nd ll la kl vl cl lr) z kz vz cz (Nd rl ra kr vr cr rr))) p n)
       = Some (ycol, ptr_of yr, cpar (ci @ [InL ra kr vr cr rr]),
               state_g (plug c (Nd (Nd ll la kl vl cl lr) y ky vy cz (Nd (plug ci yr) ra kr vr cr rr))) z
                \<lparr>key = kz, val = vz, left = Some la, right = Some ra, parent = cpar c, color = cz\<rparr> p n)"
proof -
  let ?L = "Nd ll la kl vl cl lr"
  let ?Y = "Nd Lf y ky vy ycol yr"
  let ?CY = "ci @ InL ra kr vr cr rr # InR ?L z kz vz cz # c"
  let ?T = "plug c (Nd ?L z kz vz cz (Nd rl ra kr vr cr rr))"
  let ?TA = "plug c (Nd ?L z kz vz cz (Nd (plug ci yr) ra kr vr cr rr))"
  let ?T' = "plug c (Nd ?L y ky vy cz (Nd (plug ci yr) ra kr vr cr rr))"
  let ?ycell = "\<lparr>key = ky, val = vy, left = None, right = ptr_of yr, parent = cpar ?CY, color = ycol\<rparr>"
  let ?ycell2 = "\<lparr>key = ky, val = vy, left = None, right = Some ra, parent = cpar ?CY, color = ycol\<rparr>"
  have rl_eq: "rl = plug ci ?Y" using split_min_plug[OF sm] by simp
  have T: "?T = plug ?CY ?Y" by (simp add: plug_append rl_eq)
  have TA: "?TA = plug ?CY yr" by (simp add: plug_append)
  have dY: "distinct (addrs (plug ?CY ?Y))" using d T by simp
  have dA: "distinct (addrs ?TA)" "y \<notin> set (addrs ?TA)"
    unfolding TA using dY by simp_all
  have zy: "z \<noteq> y" using dA(2) by simp
  have "cpar ?CY \<noteq> None" by (cases ci) simp_all
  moreover have "cpar ?CY = cpar (ci @ [InL ra kr vr cr rr])" by (cases ci) simp_all
  moreover have "cpar ?CY \<noteq> Some z"
  proof (cases ci)
    case Nil
    then show ?thesis using d by simp
  next
    case (Cons f ci')
    have "faddr f \<in> set (addrs rl)" unfolding rl_eq Cons by (simp add: set_addrs_fill)
    then show ?thesis using d Cons by auto
  qed
  ultimately have pCY: "cpar ?CY = cpar (ci @ [InL ra kr vr cr rr])" "cpar ?CY \<noteq> Some z" "cpar ?CY \<noteq> None"
    by simp_all
  have hy: "heap_of None ?T y = Some ?ycell"
    unfolding T using heap_of_plug[OF dY, of y] by simp
  have min: "minimum (Some ra) (state_of ?T p n) = Some (Some y)"
    using minimum_refines[of "InR ?L z kz vz cz # c" "Nd rl ra kr vr cr rr" p n] d rl
      split_min_acc[of rl "[InL ra kr vr cr rr]"] sm by simp
  have stepA: "transplant (Some y) (ptr_of yr) (state_of ?T p n) = Some (state_g ?TA y ?ycell p n)"
    unfolding T TA using transplant_right_child[OF dY, of p n] .
  have hzA: "heap_of None ?TA z
      = Some \<lparr>key = kz, val = vz, left = Some la, right = Some ra, parent = cpar c, color = cz\<rparr>"
    using heap_of_plug[OF dA(1), of z] by simp
  let ?rest = "set_parent (Some ra) (Some y) (state_g ?TA y ?ycell2 p n) \<bind> (\<lambda>s.
      load parent (Some y) s \<bind> (\<lambda>x_parent. transplant (Some z) (Some y) s \<bind> (\<lambda>s.
      load left (Some z) s \<bind> (\<lambda>zl. set_left (Some y) zl s \<bind> (\<lambda>s.
      load left (Some y) s \<bind> (\<lambda>yl. set_parent yl (Some y) s \<bind> (\<lambda>s.
      load color (Some z) s \<bind> (\<lambda>zc. set_color (Some y) zc s \<bind> (\<lambda>s.
      Some (ycol, ptr_of yr, x_parent, s))))))))))"
  let ?goal = "Some (ycol, ptr_of yr, cpar (ci @ [InL ra kr vr cr rr]),
               state_g ?T' z
                \<lparr>key = kz, val = vz, left = Some la, right = Some ra, parent = cpar c, color = cz\<rparr> p n)"
  have pre: "erase_unlink (Some z) (state_of ?T p n) = ?rest"
    using d min stepA pCY zy
    by (simp add: erase_unlink_def heap_simps load_at[OF hy] load_g_tree[OF hzA] store_g_self load_g_self)
  define h where "h = heap_of None ?TA"
  have ht: "heap_tree h None ?TA" unfolding h_def using dA(1) by (rule heap_tree_heap_of)
  have dom: "dom h = set (addrs ?TA)" unfolding h_def by (rule dom_heap_of)
  have s: "state_g ?TA y ?ycell2 p n = \<lparr>heap = h(y \<mapsto> ?ycell2), pool = p, root = ptr_of ?TA, size_m = n\<rparr>"
    by (simp add: state_g_def h_def)
  from ht have cells:
    "h z = Some \<lparr>key = kz, val = vz, left = Some la, right = Some ra, parent = cpar c, color = cz\<rparr>"
    "h ra = Some \<lparr>key = kr, val = vr, left = ptr_of (plug ci yr), right = ptr_of rr, parent = Some z, color = cr\<rparr>"
    "h la = Some \<lparr>key = kl, val = vl, left = ptr_of ll, right = ptr_of lr, parent = Some z, color = cl\<rparr>"
    "heap_tree h (Some la) ll" "heap_tree h (Some la) lr" "heap_tree h (Some ra) (plug ci yr)"
    "heap_tree h (Some ra) rr" "heap_ctx h c (Some z)"
    by (simp_all add: heap_tree_plug)
  have ny: "distinct [la, z, ra, y]" "distinct [y, ra, z, la]" using dA by auto
  have "?rest = ?goal"
  proof (cases c)
    case Nil
    show ?thesis unfolding s using dA cells dom Nil pCY(1) zy ny
      apply (simp add: transplant_def load_def store_def)
      apply (rule state_g_eqI)
          apply (simp add: heap_tree_plug)
         apply simp
        apply (simp; blast)
       apply simp
      apply simp
      done
  next
    case (Cons g c')
    have r: "ptr_of ?TA = ptr_of ?T'" using Cons by (intro ptr_of_plug) simp
    have ng: "distinct [faddr g, la, z, ra, y]" "distinct [y, ra, z, la, faddr g]"
      using dA Cons by (cases g; auto)+
    show ?thesis unfolding s using dA cells dom Cons r pCY(1) zy ny ng
      apply (cases g)
       apply (simp_all add: transplant_def load_def store_def)
       apply (rule state_g_eqI)
           apply (simp add: heap_tree_plug)
          apply simp
         apply (simp; blast)
        apply simp
       apply simp
      apply (rule state_g_eqI)
          apply (simp add: heap_tree_plug)
         apply simp
        apply (simp; blast)
       apply simp
      apply simp
      done
  qed
  then show ?thesis using pre by simp
qed

section \<open>Searching\<close>

fun lookup :: "('k::linorder, 'v) tree \<Rightarrow> 'k \<Rightarrow> 'v option" where
  "lookup Lf x = None"
| "lookup (Nd l a k v c r) x =
     (if x = k then Some v else if x < k then lookup l x else lookup r x)"

lemma find_loop_refines:
  "distinct (addrs (plug c t)) \<Longrightarrow>
   find_loop x (ptr_of t) (state_of (plug c t) p n) =
     Some (case lookup t x of None \<Rightarrow> default | Some v \<Rightarrow> v)"
proof (induction t arbitrary: c)
  case Lf
  then show ?case by (subst find_loop.simps) simp
next
  case (Nd l a k v col r)
  have l: "find_loop x (ptr_of l) (state_of (plug c (Nd l a k v col r)) p n) =
      Some (case lookup l x of None \<Rightarrow> default | Some v \<Rightarrow> v)"
    using Nd.IH(1)[of "InL a k v col r # c"] Nd.prems by simp
  have r: "find_loop x (ptr_of r) (state_of (plug c (Nd l a k v col r)) p n) =
      Some (case lookup r x of None \<Rightarrow> default | Some v \<Rightarrow> v)"
    using Nd.IH(2)[of "InR l a k v col # c"] Nd.prems by simp
  show ?case using Nd.prems l r
    by (subst find_loop.simps) (simp add: heap_simps)
qed

lemma contains_loop_refines:
  "distinct (addrs (plug c t)) \<Longrightarrow>
   contains_loop x (ptr_of t) (state_of (plug c t) p n) = Some (lookup t x \<noteq> None)"
proof (induction t arbitrary: c)
  case Lf
  then show ?case by (subst contains_loop.simps) simp
next
  case (Nd l a k v col r)
  have l: "contains_loop x (ptr_of l) (state_of (plug c (Nd l a k v col r)) p n) =
      Some (lookup l x \<noteq> None)"
    using Nd.IH(1)[of "InL a k v col r # c"] Nd.prems by simp
  have r: "contains_loop x (ptr_of r) (state_of (plug c (Nd l a k v col r)) p n) =
      Some (lookup r x \<noteq> None)"
    using Nd.IH(2)[of "InR l a k v col # c"] Nd.prems by simp
  show ?case using Nd.prems l r
    by (subst contains_loop.simps) (simp add: heap_simps)
qed

lemma erase_loop_refines:
  "distinct (addrs (plug c t)) \<Longrightarrow>
   erase_loop x (ptr_of t) (state_of (plug c t) p n) = Some (ptr_of (snd (descend x c t)))"
proof (induction x c t rule: descend.induct)
  case (1 x c)
  then show ?case by (subst erase_loop.simps) simp
next
  case (2 x c l a k v col r)
  have l: "x \<noteq> k \<Longrightarrow> x < k \<Longrightarrow>
      erase_loop x (ptr_of l) (state_of (plug c (Nd l a k v col r)) p n) =
      Some (ptr_of (snd (descend x (InL a k v col r # c) l)))"
    using "2.IH"(1) "2.prems" by simp
  have r: "x \<noteq> k \<Longrightarrow> \<not> x < k \<Longrightarrow>
      erase_loop x (ptr_of r) (state_of (plug c (Nd l a k v col r)) p n) =
      Some (ptr_of (snd (descend x (InR l a k v col # c) r)))"
    using "2.IH"(2) "2.prems" by simp
  show ?case using "2.prems" l r
    by (subst erase_loop.simps) (simp add: heap_simps)
qed

subsection \<open>Lookup in a search tree is lookup in its list of entries\<close>

lemma entries_Nd [simp]: "entries (Nd l a k v c r) = entries l @ (k, v) # entries r"
  by (simp add: entries_def)

lemma entries_Lf [simp]: "entries Lf = []"
  by (simp add: entries_def)

lemma map_fst_entries [simp]: "map fst (entries t) = keys t"
  by (simp add: entries_def keys_def)

lemma map_of_entries_None: "x \<notin> set (keys t) \<Longrightarrow> map_of (entries t) x = None"
  by (metis map_fst_entries map_of_eq_None_iff set_map)

lemma lookup_map_of: "bst t \<Longrightarrow> lookup t x = map_of (entries t) x"
proof (induction t)
  case Lf
  then show ?case by simp
next
  case (Nd l a k v c r)
  have s: "sorted_wrt (<) (keys l)" "sorted_wrt (<) (keys r)"
    "\<forall>y \<in> set (keys l). y < k" "\<forall>y \<in> set (keys r). k < y"
    using Nd.prems by (auto simp: bst_def sorted_wrt_append)
  have IH: "lookup l x = map_of (entries l) x" "lookup r x = map_of (entries r) x"
    using Nd.IH s(1,2) by (simp_all add: bst_def)
  consider "x = k" | "x < k" | "k < x" by fastforce
  then show ?case
  proof cases
    case 1
    then have "x \<notin> set (keys l)" using s(3) by auto
    then have "map_of (entries l) x = None" by (rule map_of_entries_None)
    then show ?thesis using 1 by (simp add: map_add_def)
  next
    case 2
    then have "x \<notin> set (keys r)" using s(4) by auto
    then have "map_of (entries r) x = None" by (rule map_of_entries_None)
    moreover have "x \<noteq> k" using 2 by simp
    ultimately show ?thesis using 2 IH by (simp add: map_add_def split: option.splits)
  next
    case 3
    then have "x \<notin> set (keys l)" using s(3) by auto
    then have "map_of (entries l) x = None" by (rule map_of_entries_None)
    moreover have "x \<noteq> k" "\<not> x < k" using 3 by simp_all
    ultimately show ?thesis using IH by (simp add: map_add_def split: option.splits)
  qed
qed

lemma lookup_None_iff: "bst t \<Longrightarrow> lookup t x = None \<longleftrightarrow> x \<notin> set (keys t)"
  by (metis lookup_map_of map_fst_entries map_of_eq_None_iff set_map)

subsection \<open>A map state that holds a tree\<close>

definition holds :: "('k, 'v) PooledMap \<Rightarrow> ('k, 'v) tree \<Rightarrow> bool" where
  "holds s t \<longleftrightarrow>
     distinct (addrs t) \<and> heap_tree (heap s) None t \<and> dom (heap s) = set (addrs t) \<and>
     root s = ptr_of t"

lemma holds_state_of: "holds s t \<Longrightarrow> s = state_of t (pool s) (size_m s)"
proof -
  assume h: "holds s t"
  then have "\<lparr>heap = heap s, pool = pool s, root = root s, size_m = size_m s\<rparr>
      = state_of t (pool s) (size_m s)"
    by (intro state_of_eqI) (simp_all add: holds_def)
  then show ?thesis by (cases s) simp
qed

lemma state_of_holds: "distinct (addrs t) \<Longrightarrow> holds (state_of t p n) t"
  by (simp add: holds_def heap_tree_heap_of)

lemma find_refines:
  assumes "holds s t"
  shows "find x s = Some (case lookup t x of None \<Rightarrow> default | Some v \<Rightarrow> v)"
proof -
  have d: "distinct (addrs (plug [] t))" using assms by (simp add: holds_def)
  have "find x (state_of t (pool s) (size_m s))
      = Some (case lookup t x of None \<Rightarrow> default | Some v \<Rightarrow> v)"
    using find_loop_refines[OF d, of x "pool s" "size_m s"] by (simp add: find_def)
  then show ?thesis by (simp add: holds_state_of[OF assms, symmetric])
qed

section \<open>Claims about \<^verbatim>\<open>find\<close>\<close>

text \<open>
  Claim C7. In every map state that holds a search tree, \<^verbatim>\<open>find(k)\<close> returns the value
  stored under \<open>k\<close> when a node with that key exists and \<^verbatim>\<open>Value()\<close> otherwise. So a key
  stored with the default value and a key that is absent give the same result.
\<close>

theorem find_stored_or_default:
  assumes "holds s t" and "bst t"
  shows "find k s = Some (case map_of (entries t) k of Some v \<Rightarrow> v | None \<Rightarrow> default)"
  using find_refines[OF assms(1), of k] lookup_map_of[OF assms(2), of k]
  by (simp split: option.splits)

theorem find_stored_or_default_witness:
  "holds (state_of (Nd (Nd Lf 1 (1::int) (7::int) RED Lf) 0 2 0 BLACK Lf)
            \<lparr>free_list = [], seg_count = 1, slots_used = 2, segment_capacity = 4\<rparr> 2)
         (Nd (Nd Lf 1 1 7 RED Lf) 0 2 0 BLACK Lf) \<and>
   bst (Nd (Nd Lf 1 (1::int) (7::int) RED Lf) 0 2 0 BLACK Lf) \<and>
   find 1 (state_of (Nd (Nd Lf 1 (1::int) (7::int) RED Lf) 0 2 0 BLACK Lf)
            \<lparr>free_list = [], seg_count = 1, slots_used = 2, segment_capacity = 4\<rparr> 2) = Some 7 \<and>
   find 2 (state_of (Nd (Nd Lf 1 (1::int) (7::int) RED Lf) 0 2 0 BLACK Lf)
            \<lparr>free_list = [], seg_count = 1, slots_used = 2, segment_capacity = 4\<rparr> 2) = Some 0 \<and>
   find 3 (state_of (Nd (Nd Lf 1 (1::int) (7::int) RED Lf) 0 2 0 BLACK Lf)
            \<lparr>free_list = [], seg_count = 1, slots_used = 2, segment_capacity = 4\<rparr> 2) = Some 0"
proof -
  let ?t = "Nd (Nd Lf 1 (1::int) (7::int) RED Lf) 0 2 0 BLACK Lf"
  let ?s = "state_of ?t \<lparr>free_list = [], seg_count = 1, slots_used = 2, segment_capacity = 4\<rparr> 2"
  have h: "holds ?s ?t" by (rule state_of_holds) simp
  have b: "bst ?t" by (simp add: bst_def)
  show ?thesis
    using h b find_stored_or_default[OF h b, of 1] find_stored_or_default[OF h b, of 2]
      find_stored_or_default[OF h b, of 3]
    by (simp add: default_int_def)
qed

section \<open>The pool hands out fresh slots\<close>

definition pool_ok :: "pool \<Rightarrow> nat set \<Rightarrow> bool" where
  "pool_ok p live \<longleftrightarrow>
     distinct (free_list p) \<and> set (free_list p) \<inter> live = {} \<and>
     (\<forall>a \<in> set (free_list p) \<union> live. a < slots_used p)"

lemma pool_ok_empty: "pool_ok (empty_pool cap) {}"
  by (simp add: pool_ok_def empty_pool_def)

lemma pool_create_ok:
  assumes "pool_ok p live" "pool_create p = (a, p')"
  shows "a \<notin> live" "pool_ok p' (insert a live)"
proof -
  show "a \<notin> live"
  proof (cases "free_list p")
    case Nil
    then have "a = slots_used p" using assms(2) by (auto simp: pool_create_def split: if_splits)
    then show ?thesis using assms(1) by (auto simp: pool_ok_def)
  next
    case (Cons b fl)
    then have "a = b" using assms(2) by (auto simp: pool_create_def)
    then show ?thesis using assms(1) Cons by (auto simp: pool_ok_def)
  qed
  show "pool_ok p' (insert a live)"
  proof (cases "free_list p")
    case Nil
    then have "a = slots_used p" "free_list p' = []" "slots_used p' = slots_used p + 1"
      using assms(2) by (auto simp: pool_create_def split: if_splits)
    then show ?thesis using assms(1) Nil by (auto simp: pool_ok_def less_Suc_eq)
  next
    case (Cons b fl)
    then have "a = b" "free_list p' = fl" "slots_used p' = slots_used p"
      using assms(2) by (auto simp: pool_create_def)
    then show ?thesis using assms(1) Cons by (auto simp: pool_ok_def)
  qed
qed

lemma pool_recycle_ok:
  assumes "pool_ok p live" "a \<in> live"
  shows "pool_ok (pool_recycle a p) (live - {a})"
  using assms by (auto simp: pool_ok_def pool_recycle_def)

section \<open>Well-formed map states\<close>

definition map_inv :: "('k::linorder, 'v) PooledMap \<Rightarrow> ('k, 'v) tree \<Rightarrow> bool" where
  "map_inv s t \<longleftrightarrow>
     holds s t \<and> rbt t \<and> bst t \<and> size_m s = length (addrs t) \<and>
     pool_ok (pool s) (set (addrs t))"

lemma map_inv_empty: "map_inv (empty_map cap) Lf"
  by (simp add: map_inv_def holds_def empty_map_def rbt_def bst_def pool_ok_empty)

lemma map_inv_state_of:
  "map_inv s t \<Longrightarrow> s = state_of t (pool s) (size_m s)"
  using holds_state_of[of s t] by (simp only: map_inv_def)

lemma map_inv_state_ofI:
  "distinct (addrs t) \<Longrightarrow> rbt t \<Longrightarrow> bst t \<Longrightarrow> n = length (addrs t) \<Longrightarrow>
   pool_ok p (set (addrs t)) \<Longrightarrow> map_inv (state_of t p n) t"
  by (simp add: map_inv_def state_of_holds)

subsection \<open>Cells of a tree\<close>

lemma inorder_focus:
  "(a, k, v) \<in> set (inorder t) \<Longrightarrow> \<exists>c l col r. t = plug c (Nd l a k v col r)"
proof (induction t)
  case Lf
  then show ?case by simp
next
  case (Nd l b kb vb cb r)
  consider "(a, k, v) = (b, kb, vb)" | "(a, k, v) \<in> set (inorder l)" | "(a, k, v) \<in> set (inorder r)"
    using Nd.prems by auto
  then show ?case
  proof cases
    case 1
    then have "Nd l b kb vb cb r = plug [] (Nd l a k v cb r)" by simp
    then show ?thesis by blast
  next
    case 2
    then obtain c l' col r' where "l = plug c (Nd l' a k v col r')" using Nd.IH(1) by blast
    then have "Nd l b kb vb cb r = plug (c @ [InL b kb vb cb r]) (Nd l' a k v col r')"
      by (simp add: plug_append)
    then show ?thesis by blast
  next
    case 3
    then obtain c l' col r' where "r = plug c (Nd l' a k v col r')" using Nd.IH(2) by blast
    then have "Nd l b kb vb cb r = plug (c @ [InR l b kb vb cb]) (Nd l' a k v col r')"
      by (simp add: plug_append)
    then show ?thesis by blast
  qed
qed

lemma load_key_val:
  assumes "distinct (addrs t)" "(a, k, v) \<in> set (inorder t)"
  shows "load key (Some a) (state_of t p n) = Some k" "load val (Some a) (state_of t p n) = Some v"
proof -
  obtain c l col r where t: "t = plug c (Nd l a k v col r)"
    using inorder_focus[OF assms(2)] by blast
  show "load key (Some a) (state_of t p n) = Some k" "load val (Some a) (state_of t p n) = Some v"
    using assms(1) unfolding t by (simp_all add: load_state_of)
qed

lemma set_val_focus:
  assumes d: "distinct (addrs (plug c (Nd l a k v col r)))"
  shows "set_val (Some a) v' (state_of (plug c (Nd l a k v col r)) p n)
       = Some (state_of (plug c (Nd l a k v' col r)) p n)"
proof -
  let ?T = "plug c (Nd l a k v col r)"
  let ?T' = "plug c (Nd l a k v' col r)"
  define h where "h = heap_of None ?T"
  have ht: "heap_tree h None ?T" unfolding h_def using d by (rule heap_tree_heap_of)
  have dom: "dom h = set (addrs ?T)" unfolding h_def by (rule dom_heap_of)
  have s: "state_of ?T p n = \<lparr>heap = h, pool = p, root = ptr_of ?T, size_m = n\<rparr>"
    by (simp add: state_of_def h_def)
  from ht have cells:
    "h a = Some \<lparr>key = k, val = v, left = ptr_of l, right = ptr_of r, parent = cpar c, color = col\<rparr>"
    "heap_tree h (Some a) l" "heap_tree h (Some a) r" "heap_ctx h c (Some a)"
    by (simp_all add: heap_tree_plug)
  have r: "ptr_of ?T = ptr_of ?T'"
  proof (cases c)
    case Nil
    then show ?thesis by simp
  next
    case (Cons f c')
    then show ?thesis by (intro ptr_of_plug) simp
  qed
  show ?thesis unfolding s using d cells dom r
    apply (simp add: store_def)
    apply (rule state_of_eqI)
      apply (simp add: heap_tree_plug)
     apply (simp; blast)
    apply simp
    done
qed

section \<open>\<^verbatim>\<open>operator[]\<close> on a well-formed state\<close>

lemma upsert_present:
  assumes "distinct (addrs t)" "descend x [] t = (c, Nd l a k v col r)"
  shows "operator_index x (state_of t p n) = Some (Some a, state_of t p n)"
  using operator_index_loop_refines[of "[]" t x p n] assms
  by (simp add: operator_index_def)

lemma descend_Lf_absent:
  assumes "bst t" "descend x [] t = (c, Lf)"
  shows "x \<notin> set (keys t)" "between x c" "plug c Lf = t"
proof -
  show p: "plug c Lf = t" using plug_descend[OF assms(2)] by simp
  show b: "between x c" using descend_between[of "[]" t x c Lf] assms by simp
  show "x \<notin> set (keys t)" using between_notin[OF b] p by simp
qed

lemma descend_Nd_present:
  assumes "descend x [] t = (c, Nd l a k v col r)"
  shows "k = x" "(a, x, v) \<in> set (inorder t)" "x \<in> set (keys t)"
proof -
  show k: "k = x" using descend_found[OF assms] .
  have "plug c (Nd l a k v col r) = t" using plug_descend[OF assms] by simp
  then have "inorder t = cbefore c @ inorder (Nd l a k v col r) @ cafter c"
    using inorder_plug[of c "Nd l a k v col r"] by simp
  then show i: "(a, x, v) \<in> set (inorder t)" using k by simp
  then show "x \<in> set (keys t)" by (force simp: keys_def)
qed

lemma map_of_insert_middle:
  "x \<notin> fst ` set xs \<Longrightarrow> map_of (xs @ (x, d) # ys) = (map_of (xs @ ys))(x \<mapsto> d)"
  by (induction xs) (auto simp: fun_upd_twist)

lemma entries_plug:
  "entries (plug c t) = map snd (cbefore c) @ entries t @ map snd (cafter c)"
  by (simp add: entries_def inorder_plug)

lemma entries_insert:
  assumes "between x c"
  shows "map_of (entries (plug c (Nd Lf a x d col Lf))) = (map_of (entries (plug c Lf)))(x \<mapsto> d)"
proof -
  have "x \<notin> fst ` set (map snd (cbefore c))" using assms by (force simp: between_def)
  then have "map_of (map snd (cbefore c) @ (x, d) # map snd (cafter c))
      = (map_of (map snd (cbefore c) @ map snd (cafter c)))(x \<mapsto> d)"
    by (rule map_of_insert_middle)
  then show ?thesis
    by (simp only: entries_plug entries_Nd entries_Lf append_Nil append_Cons)
qed

lemma bst_inorder_cong: "inorder t = inorder t' \<Longrightarrow> bst t = bst t'"
  by (simp add: bst_def keys_def)

lemma entries_inorder_cong: "inorder t = inorder t' \<Longrightarrow> entries t = entries t'"
  by (simp add: entries_def)

lemma upsert_absent:
  assumes d: "distinct (addrs t)" and rb: "rbt t" and bs: "bst t"
    and ds: "descend x [] t = (c, Lf)" and pc: "pool_create P = (a, P')"
    and fresh: "a \<notin> set (addrs t)"
  shows "\<exists>c' t'. ins_fix c (Nd Lf a x default RED Lf) = Some (c', t') \<and>
      link_new_node x (cpar c) (state_of t P n)
        = Some (Some a, state_of (plug c (Nd Lf a x default RED Lf)) P' n) \<and>
      fix_insert (Some a) (state_of (plug c (Nd Lf a x default RED Lf)) P' n)
        = Some (state_of (blacken (plug c' t')) P' n) \<and>
      operator_index x (state_of t P n)
        = Some (Some a, state_of (blacken (plug c' t')) P' (n + 1)) \<and>
      rbt (blacken (plug c' t')) \<and>
      inorder (blacken (plug c' t')) = inorder (plug c (Nd Lf a x default RED Lf))"
proof -
  let ?N = "Nd Lf a x default RED Lf"
  note ab = descend_Lf_absent[OF bs ds]
  have t: "t = plug c Lf" using ab(3) by simp
  have dir: "c = [] \<or> dir_ok x (hd c)" using descend_dir[OF ds] by auto
  have link: "link_new_node x (cpar c) (state_of t P n) = Some (Some a, state_of (plug c ?N) P' n)"
    unfolding t using d fresh pc dir unfolding t by (rule link_new_node_state)
  have ii: "ins_inv c ?N" using rb unfolding t by (rule ins_inv_initial)
  obtain c' t' where fx: "ins_fix c ?N = Some (c', t')" and i': "ins_inv c' t'"
    and np: "\<not> parent_red c'"
    using ins_fix_inv[OF ii] by blast
  have dN: "distinct (addrs (plug c ?N))" using d fresh unfolding t by simp
  have fi: "fix_insert (Some a) (state_of (plug c ?N) P' n)
      = Some (state_of (blacken (plug c' t')) P' n)"
    using fix_insert_refines[OF dN _ fx, of P' n] by simp
  have loop: "operator_index_loop x (ptr_of t) None (state_of t P n) = Some (Inr (cpar c))"
    using operator_index_loop_refines[of "[]" t x P n] d ds by simp
  have oi: "operator_index x (state_of t P n)
      = Some (Some a, state_of (blacken (plug c' t')) P' (n + 1))"
    using loop link fi by (simp add: operator_index_def state_of_def)
  have "rbt (blacken (plug c' t'))" using i' np by (rule ins_inv_final)
  moreover have "inorder (blacken (plug c' t')) = inorder (plug c ?N)"
    using ins_fix_inorder[OF fx] by simp
  ultimately show ?thesis using fx link fi oi by blast
qed

lemma sorted_less_distinct: "sorted_wrt (<) (xs :: 'a::linorder list) \<Longrightarrow> distinct xs"
  by (induction xs) auto

lemma bst_distinct_keys: "bst t \<Longrightarrow> distinct (keys t)"
  by (simp add: bst_def sorted_less_distinct)

lemma map_of_entries_Some:
  assumes "bst t" "(a, k, v) \<in> set (inorder t)"
  shows "map_of (entries t) k = Some v"
proof -
  have "distinct (map fst (entries t))" using assms(1) by (simp add: bst_distinct_keys)
  moreover have "(k, v) \<in> set (entries t)" using assms(2) by (force simp: entries_def)
  ultimately show ?thesis by (rule map_of_is_SomeI)
qed

lemma descend_cases:
  obtains (absent) c where "descend x [] t = (c, Lf)"
  | (present) c l a v col r where "descend x [] t = (c, Nd l a x v col r)"
proof (cases "descend x [] t")
  case (Pair c t')
  show ?thesis
  proof (cases t')
    case Lf
    then show ?thesis using Pair absent by simp
  next
    case (Nd l a k v col r)
    then have "k = x" using Pair descend_found by fastforce
    then show ?thesis using Pair Nd present by simp
  qed
qed

lemma upsert_inv_present:
  assumes "map_inv s t" "k \<in> set (keys t)"
  shows "\<exists>a v. (a, k, v) \<in> set (inorder t) \<and> operator_index k s = Some (Some a, s)"
proof (cases k t rule: descend_cases)
  case (absent c)
  then show ?thesis using descend_Lf_absent(1)[of t k c] assms by (simp add: map_inv_def)
next
  case (present c l a v col r)
  have d: "distinct (addrs t)" using assms(1) by (simp add: map_inv_def holds_def)
  have "operator_index k (state_of t (pool s) (size_m s))
      = Some (Some a, state_of t (pool s) (size_m s))"
    using d present by (rule upsert_present)
  then have "operator_index k s = Some (Some a, s)"
    by (simp add: map_inv_state_of[OF assms(1), symmetric])
  then show ?thesis using descend_Nd_present(2)[OF present] by blast
qed

lemma upsert_inv_absent:
  assumes "map_inv s t" "k \<notin> set (keys t)"
  shows "\<exists>c a P' t'. descend k [] t = (c, Lf) \<and> pool_create (pool s) = (a, P') \<and>
      link_new_node k (cpar c) s
        = Some (Some a, state_of (plug c (Nd Lf a k default RED Lf)) P' (size_m s)) \<and>
      fix_insert (Some a) (state_of (plug c (Nd Lf a k default RED Lf)) P' (size_m s))
        = Some (state_of t' P' (size_m s)) \<and>
      operator_index k s = Some (Some a, state_of t' P' (size_m s + 1)) \<and>
      map_inv (state_of t' P' (size_m s + 1)) t' \<and>
      inorder t' = inorder (plug c (Nd Lf a k default RED Lf)) \<and>
      plug c Lf = t \<and> between k c \<and> a \<notin> set (addrs t)"
proof (cases k t rule: descend_cases)
  case (present c l a v col r)
  then show ?thesis using descend_Nd_present(3)[OF present] assms(2) by simp
next
  case (absent c)
  have d: "distinct (addrs t)" and rb: "rbt t" and bs: "bst t"
    and sz: "size_m s = length (addrs t)" and po: "pool_ok (pool s) (set (addrs t))"
    using assms(1) by (simp_all add: map_inv_def holds_def)
  obtain a P' where pc: "pool_create (pool s) = (a, P')" by (cases "pool_create (pool s)") auto
  note fr = pool_create_ok[OF po pc]
  note ab = descend_Lf_absent[OF bs absent]
  let ?N = "Nd Lf a k default RED Lf"
  obtain c' t' where u:
    "link_new_node k (cpar c) (state_of t (pool s) (size_m s))
       = Some (Some a, state_of (plug c ?N) P' (size_m s))"
    "fix_insert (Some a) (state_of (plug c ?N) P' (size_m s))
       = Some (state_of (blacken (plug c' t')) P' (size_m s))"
    "operator_index k (state_of t (pool s) (size_m s))
       = Some (Some a, state_of (blacken (plug c' t')) P' (size_m s + 1))"
    "rbt (blacken (plug c' t'))"
    "inorder (blacken (plug c' t')) = inorder (plug c ?N)"
    using upsert_absent[OF d rb bs absent pc fr(1), of "size_m s"] by blast
  let ?t = "blacken (plug c' t')"
  have e: "state_of t (pool s) (size_m s) = s" using map_inv_state_of[OF assms(1)] by simp
  have ad: "addrs ?t = addrs (plug c ?N)" using u(5) by (rule inorder_eq_addrs)
  have sa: "set (addrs ?t) = insert a (set (addrs t))" unfolding ad using ab(3) by auto
  have d': "distinct (addrs ?t)" unfolding ad using d fr(1) ab(3) by auto
  have "bst (plug c ?N)" using bs ab(2) unfolding ab(3)[symmetric] by (rule bst_insert)
  then have b': "bst ?t" using bst_inorder_cong[OF u(5)] by simp
  have "length (addrs ?t) = length (addrs t) + 1"
    unfolding ad using ab(3) by (auto simp: addrs_inorder inorder_plug)
  then have n': "size_m s + 1 = length (addrs ?t)" using sz by simp
  have p': "pool_ok P' (set (addrs ?t))" using fr(2) sa by simp
  have "map_inv (state_of ?t P' (size_m s + 1)) ?t"
    using d' u(4) b' n' p' by (rule map_inv_state_ofI)
  then show ?thesis using absent pc u(1,2,3,5) ab(2,3) fr(1) unfolding e by blast
qed

section \<open>Assigning through the returned reference\<close>

lemma rbt_val_cong: "rbt (plug c (Nd l a k v' col r)) = rbt (plug c (Nd l a k v col r))"
  by (simp add: rbt_def balanced_plug rr_ok_plug rcolor_plug)

lemma keys_val_cong: "keys (plug c (Nd l a k v' col r)) = keys (plug c (Nd l a k v col r))"
  by (simp add: keys_plug)

lemma addrs_val_cong: "addrs (plug c (Nd l a k v' col r)) = addrs (plug c (Nd l a k v col r))"
  by (simp add: addrs_inorder inorder_plug)

lemma map_of_replace_middle:
  assumes "x \<notin> fst ` set xs"
  shows "map_of (xs @ (x, d') # ys) = (map_of (xs @ (x, d) # ys))(x \<mapsto> d')"
  using map_of_insert_middle[OF assms, of d' ys] map_of_insert_middle[OF assms, of d ys]
  by simp

lemma entries_val_update:
  assumes "distinct (keys (plug c (Nd l a k v col r)))"
  shows "map_of (entries (plug c (Nd l a k v' col r)))
       = (map_of (entries (plug c (Nd l a k v col r))))(k \<mapsto> v')"
proof -
  let ?xs = "map snd (cbefore c) @ entries l"
  let ?ys = "entries r @ map snd (cafter c)"
  have "map fst ?xs @ k # map fst ?ys = keys (plug c (Nd l a k v col r))"
    by (simp add: keys_plug)
  then have "distinct (map fst ?xs @ k # map fst ?ys)" using assms by simp
  moreover have "\<And>as bs. distinct (as @ k # bs) \<Longrightarrow> k \<notin> set as" by simp
  ultimately have "k \<notin> set (map fst ?xs)" by blast
  then have "k \<notin> fst ` set ?xs" by (simp only: set_map simp_thms)
  then have "map_of (?xs @ (k, v') # ?ys) = (map_of (?xs @ (k, v) # ?ys))(k \<mapsto> v')"
    by (rule map_of_replace_middle)
  then show ?thesis by (simp add: entries_plug)
qed

lemma assign_inv:
  assumes "map_inv s t" "(a, k, v0) \<in> set (inorder t)"
  shows "\<exists>t'. set_val (Some a) v s = Some (state_of t' (pool s) (size_m s)) \<and>
      map_inv (state_of t' (pool s) (size_m s)) t' \<and> (a, k, v) \<in> set (inorder t') \<and>
      keys t' = keys t \<and> addrs t' = addrs t \<and>
      map_of (entries t') = (map_of (entries t))(k \<mapsto> v)"
proof -
  obtain c l col r where t: "t = plug c (Nd l a k v0 col r)"
    using inorder_focus[OF assms(2)] by blast
  let ?t = "plug c (Nd l a k v col r)"
  have d: "distinct (addrs t)" and rb: "rbt t" and bs: "bst t"
    and sz: "size_m s = length (addrs t)" and po: "pool_ok (pool s) (set (addrs t))"
    using assms(1) by (simp_all add: map_inv_def holds_def)
  have "set_val (Some a) v (state_of t (pool s) (size_m s))
      = Some (state_of ?t (pool s) (size_m s))"
    using d unfolding t by (rule set_val_focus)
  then have sv: "set_val (Some a) v s = Some (state_of ?t (pool s) (size_m s))"
    by (simp add: map_inv_state_of[OF assms(1), symmetric])
  have ad: "addrs ?t = addrs t" unfolding t by (rule addrs_val_cong)
  have ks: "keys ?t = keys t" unfolding t by (rule keys_val_cong)
  have "rbt ?t" using rb unfolding t by (simp only: rbt_val_cong[of c l a k v col r v0])
  moreover have "bst ?t" using bs ks by (simp add: bst_def)
  ultimately have inv: "map_inv (state_of ?t (pool s) (size_m s)) ?t"
    using d sz po ad by (intro map_inv_state_ofI) simp_all
  have "distinct (keys (plug c (Nd l a k v0 col r)))" using bs t by (simp add: bst_distinct_keys)
  then have "map_of (entries ?t) = (map_of (entries t))(k \<mapsto> v)"
    unfolding t by (rule entries_val_update)
  moreover have "(a, k, v) \<in> set (inorder ?t)" by (simp add: inorder_plug)
  ultimately show ?thesis using sv inv ks ad by blast
qed

section \<open>Claims about \<^verbatim>\<open>operator[]\<close>\<close>

text \<open>
  Claim C3. On every well-formed map state, \<^verbatim>\<open>operator[]\<close> on a key \<open>k\<close> returns a
  reference \<open>r\<close> and a well-formed state. If a node with key \<open>k\<close> exists, the state is
  unchanged (no node is allocated, the tree and the size stay as they are) and \<open>r\<close> points
  at the node that holds \<open>k\<close> and its stored value. Otherwise the descent falls off the
  tree at a leaf position \<open>c\<close>; a slot \<open>a\<close> is taken from the pool; the new node, RED with
  key \<open>k\<close> and value \<^verbatim>\<open>Value()\<close>, replaces that leaf below the last node visited (or
  becomes the root of an empty tree); the insert fixup runs on it; the size grows by one;
  and \<open>r\<close> points at the new node, whose value is \<^verbatim>\<open>Value()\<close>.
\<close>

theorem upsert_behaviour:
  assumes "map_inv s t"
  shows "\<exists>r s' t'. operator_index k s = Some (r, s') \<and> map_inv s' t' \<and>
    (if k \<in> set (keys t)
     then s' = s \<and> t' = t \<and> load key r s = Some k \<and> load val r s = map_of (entries t) k
     else (\<exists>c a P'. descend k [] t = (c, Lf) \<and> pool_create (pool s) = (a, P') \<and> r = Some a \<and>
            link_new_node k (cpar c) s
              = Some (r, state_of (plug c (Nd Lf a k default RED Lf)) P' (size_m s)) \<and>
            fix_insert r (state_of (plug c (Nd Lf a k default RED Lf)) P' (size_m s))
              = Some (s'\<lparr>size_m := size_m s\<rparr>) \<and>
            size_m s' = size_m s + 1 \<and> load key r s' = Some k \<and> load val r s' = Some default \<and>
            map_of (entries t') = (map_of (entries t))(k \<mapsto> default)))"
proof (cases "k \<in> set (keys t)")
  case True
  obtain a v where a: "(a, k, v) \<in> set (inorder t)" "operator_index k s = Some (Some a, s)"
    using upsert_inv_present[OF assms True] by blast
  have d: "distinct (addrs t)" and bs: "bst t" using assms by (simp_all add: map_inv_def holds_def)
  have "load key (Some a) (state_of t (pool s) (size_m s)) = Some k"
    "load val (Some a) (state_of t (pool s) (size_m s)) = Some v"
    using load_key_val[OF d a(1)] by simp_all
  then have "load key (Some a) s = Some k" "load val (Some a) s = Some v"
    by (simp_all add: map_inv_state_of[OF assms, symmetric])
  moreover have "map_of (entries t) k = Some v" using bs a(1) by (rule map_of_entries_Some)
  ultimately show ?thesis using True a(2) assms by simp
next
  case False
  obtain c a P' t' where u: "descend k [] t = (c, Lf)" "pool_create (pool s) = (a, P')"
    "link_new_node k (cpar c) s
       = Some (Some a, state_of (plug c (Nd Lf a k default RED Lf)) P' (size_m s))"
    "fix_insert (Some a) (state_of (plug c (Nd Lf a k default RED Lf)) P' (size_m s))
       = Some (state_of t' P' (size_m s))"
    "operator_index k s = Some (Some a, state_of t' P' (size_m s + 1))"
    "map_inv (state_of t' P' (size_m s + 1)) t'"
    "inorder t' = inorder (plug c (Nd Lf a k default RED Lf))"
    "plug c Lf = t" "between k c"
    using upsert_inv_absent[OF assms False] by blast
  let ?s = "state_of t' P' (size_m s + 1)"
  have d': "distinct (addrs t')" using u(6) by (simp add: map_inv_def holds_def)
  have "(a, k, default) \<in> set (inorder t')" unfolding u(7) by (simp add: inorder_plug)
  then have ld: "load key (Some a) ?s = Some k" "load val (Some a) ?s = Some default"
    using load_key_val[OF d'] by simp_all
  have "entries t' = entries (plug c (Nd Lf a k default RED Lf))"
    using u(7) by (rule entries_inorder_cong)
  then have en: "map_of (entries t') = (map_of (entries t))(k \<mapsto> default)"
    using entries_insert[OF u(9), of a default RED] u(8) by simp
  have st: "?s\<lparr>size_m := size_m s\<rparr> = state_of t' P' (size_m s)" by (simp add: state_of_def)
  show ?thesis using False u(1-6) ld en st by auto
qed

theorem upsert_behaviour_witness:
  "map_inv (state_of (Nd (Nd Lf 1 (1::int) (7::int) RED Lf) 0 2 0 BLACK Lf)
             \<lparr>free_list = [], seg_count = 1, slots_used = 2, segment_capacity = 4\<rparr> 2)
           (Nd (Nd Lf 1 1 7 RED Lf) 0 2 0 BLACK Lf) \<and>
   (\<exists>r s' t'. operator_index 3
        (state_of (Nd (Nd Lf 1 (1::int) (7::int) RED Lf) 0 2 0 BLACK Lf)
           \<lparr>free_list = [], seg_count = 1, slots_used = 2, segment_capacity = 4\<rparr> 2)
        = Some (r, s') \<and> map_inv s' t' \<and> size_m s' = 3 \<and> load val r s' = Some 0) \<and>
   (\<exists>r. operator_index 1
        (state_of (Nd (Nd Lf 1 (1::int) (7::int) RED Lf) 0 2 0 BLACK Lf)
           \<lparr>free_list = [], seg_count = 1, slots_used = 2, segment_capacity = 4\<rparr> 2)
        = Some (r, state_of (Nd (Nd Lf 1 (1::int) (7::int) RED Lf) 0 2 0 BLACK Lf)
           \<lparr>free_list = [], seg_count = 1, slots_used = 2, segment_capacity = 4\<rparr> 2) \<and>
      load val r (state_of (Nd (Nd Lf 1 (1::int) (7::int) RED Lf) 0 2 0 BLACK Lf)
           \<lparr>free_list = [], seg_count = 1, slots_used = 2, segment_capacity = 4\<rparr> 2) = Some 7)"
proof -
  let ?t = "Nd (Nd Lf 1 (1::int) (7::int) RED Lf) 0 2 0 BLACK Lf"
  let ?s = "state_of ?t \<lparr>free_list = [], seg_count = 1, slots_used = 2, segment_capacity = 4\<rparr> 2"
  have i: "map_inv ?s ?t"
    by (rule map_inv_state_ofI) (simp_all add: rbt_def bst_def pool_ok_def)
  show ?thesis
    using i upsert_behaviour[OF i, of 3] upsert_behaviour[OF i, of 1]
    by (auto simp: default_int_def)
qed

section \<open>Upsert, then find\<close>

lemma find_inv:
  assumes "map_inv s t"
  shows "find k s = Some (case map_of (entries t) k of Some v \<Rightarrow> v | None \<Rightarrow> default)"
proof -
  have h: "holds s t" and b: "bst t" using assms by (simp_all add: map_inv_def)
  show ?thesis using find_refines[OF h, of k] lookup_map_of[OF b, of k]
    by (simp split: option.splits)
qed

lemma find_after:
  assumes "map_inv s t" "(a, k, v0) \<in> set (inorder t)"
  shows "find k s = Some v0" "load val (Some a) s = Some v0"
    "\<exists>s''. set_val (Some a) v s = Some s'' \<and> find k s'' = Some v"
proof -
  have d: "distinct (addrs t)" and b: "bst t" using assms(1) by (simp_all add: map_inv_def holds_def)
  have m: "map_of (entries t) k = Some v0" using b assms(2) by (rule map_of_entries_Some)
  show "find k s = Some v0" using find_inv[OF assms(1), of k] m by simp
  have "load val (Some a) (state_of t (pool s) (size_m s)) = Some v0"
    using load_key_val(2)[OF d assms(2)] .
  then show "load val (Some a) s = Some v0"
    by (simp add: map_inv_state_of[OF assms(1), symmetric])
  obtain t' where t': "set_val (Some a) v s = Some (state_of t' (pool s) (size_m s))"
    "map_inv (state_of t' (pool s) (size_m s)) t'"
    "map_of (entries t') = (map_of (entries t))(k \<mapsto> v)"
    using assign_inv[OF assms, of v] by blast
  have "find k (state_of t' (pool s) (size_m s)) = Some v"
    using find_inv[OF t'(2), of k] t'(3) by simp
  then show "\<exists>s''. set_val (Some a) v s = Some s'' \<and> find k s'' = Some v" using t'(1) by blast
qed

text \<open>
  Claim C5. On every well-formed map state, \<^verbatim>\<open>operator[]\<close> on \<open>k\<close> returns, and
  \<^verbatim>\<open>find(k)\<close> right after it returns the value behind the returned reference:
  \<^verbatim>\<open>Value()\<close> if \<open>k\<close> was new, the value stored before if it was present; and after an
  assignment of \<open>v\<close> through the reference \<^verbatim>\<open>find(k)\<close> returns \<open>v\<close>.
\<close>

theorem upsert_then_find:
  assumes "map_inv s t"
  shows "\<exists>r s'. operator_index k s = Some (r, s') \<and>
         find k s' = load val r s' \<and>
         find k s' = Some (case map_of (entries t) k of Some v \<Rightarrow> v | None \<Rightarrow> default) \<and>
         (\<exists>s''. set_val r v s' = Some s'' \<and> find k s'' = Some v)"
proof (cases "k \<in> set (keys t)")
  case True
  obtain a v0 where a: "(a, k, v0) \<in> set (inorder t)" "operator_index k s = Some (Some a, s)"
    using upsert_inv_present[OF assms True] by blast
  have m: "map_of (entries t) k = Some v0"
    using assms a(1) by (intro map_of_entries_Some) (simp_all add: map_inv_def)
  show ?thesis
    using a(2) find_after(1,2)[OF assms a(1)] find_after(3)[OF assms a(1), of v] m by simp
next
  case False
  obtain c a P' t' where u:
    "operator_index k s = Some (Some a, state_of t' P' (size_m s + 1))"
    "map_inv (state_of t' P' (size_m s + 1)) t'"
    "inorder t' = inorder (plug c (Nd Lf a k default RED Lf))"
    using upsert_inv_absent[OF assms False] by blast
  have i: "(a, k, default) \<in> set (inorder t')" unfolding u(3) by (simp add: inorder_plug)
  have "k \<notin> fst ` set (entries t)" using False by (metis map_fst_entries set_map)
  then have m: "map_of (entries t) k = None" by (simp add: map_of_eq_None_iff)
  show ?thesis
    using u(1) find_after(1,2)[OF u(2) i] find_after(3)[OF u(2) i, of v] m by simp
qed

theorem upsert_then_find_witness:
  "map_inv (state_of (Nd (Nd Lf 1 (1::int) (7::int) RED Lf) 0 2 0 BLACK Lf)
             \<lparr>free_list = [], seg_count = 1, slots_used = 2, segment_capacity = 4\<rparr> 2)
           (Nd (Nd Lf 1 1 7 RED Lf) 0 2 0 BLACK Lf) \<and>
   (\<exists>r s'. operator_index 1
        (state_of (Nd (Nd Lf 1 (1::int) (7::int) RED Lf) 0 2 0 BLACK Lf)
           \<lparr>free_list = [], seg_count = 1, slots_used = 2, segment_capacity = 4\<rparr> 2)
        = Some (r, s') \<and>
      find 1 s' = load val r s' \<and> find 1 s' = Some 7 \<and>
      (\<exists>s''. set_val r 9 s' = Some s'' \<and> find 1 s'' = Some 9)) \<and>
   (\<exists>r s'. operator_index 3
        (state_of (Nd (Nd Lf 1 (1::int) (7::int) RED Lf) 0 2 0 BLACK Lf)
           \<lparr>free_list = [], seg_count = 1, slots_used = 2, segment_capacity = 4\<rparr> 2)
        = Some (r, s') \<and>
      find 3 s' = load val r s' \<and> find 3 s' = Some 0 \<and>
      (\<exists>s''. set_val r 9 s' = Some s'' \<and> find 3 s'' = Some 9))"
proof -
  let ?t = "Nd (Nd Lf 1 (1::int) (7::int) RED Lf) 0 2 0 BLACK Lf"
  let ?s = "state_of ?t \<lparr>free_list = [], seg_count = 1, slots_used = 2, segment_capacity = 4\<rparr> 2"
  have i: "map_inv ?s ?t"
    by (rule map_inv_state_ofI) (simp_all add: rbt_def bst_def pool_ok_def)
  show ?thesis
    using i upsert_then_find[OF i, of 1 9] upsert_then_find[OF i, of 3 9]
    by (simp add: default_int_def)
qed

section \<open>Teardown\<close>

fun postorder :: "('k, 'v) tree \<Rightarrow> nat list" where
  "postorder Lf = []"
| "postorder (Nd l a k v c r) = postorder l @ postorder r @ [a]"

lemma set_postorder [simp]: "set (postorder t) = set (addrs t)"
  by (induction t) auto

definition cleared :: "nat set \<Rightarrow> nat list \<Rightarrow> ('k, 'v) PooledMap \<Rightarrow> ('k, 'v) PooledMap" where
  "cleared A as s =
     s\<lparr>heap := heap s |` (- A), pool := (pool s)\<lparr>free_list := rev as @ free_list (pool s)\<rparr>\<rparr>"

lemma clear_refines:
  "heap_tree (heap s) par t \<Longrightarrow> distinct (addrs t) \<Longrightarrow>
   clear (ptr_of t) s = Some (cleared (set (addrs t)) (postorder t) s)"
proof (induction t arbitrary: s par)
  case Lf
  show ?case by (subst clear.simps) (cases s, simp add: cleared_def restrict_map_def)
next
  case (Nd l a k v c r)
  let ?cell = "\<lparr>key = k, val = v, left = ptr_of l, right = ptr_of r, parent = par, color = c\<rparr>"
  let ?s1 = "cleared (set (addrs l)) (postorder l) s"
  let ?s2 = "cleared (set (addrs r)) (postorder r) ?s1"
  have ha: "heap s a = Some ?cell" and hl: "heap_tree (heap s) (Some a) l"
    and hr: "heap_tree (heap s) (Some a) r"
    using Nd.prems(1) by simp_all
  have na: "a \<notin> set (addrs l)" "a \<notin> set (addrs r)" and dl: "distinct (addrs l)"
    and dr: "distinct (addrs r)" and lr: "set (addrs l) \<inter> set (addrs r) = {}"
    using Nd.prems(2) by auto
  have c1: "clear (ptr_of l) s = Some ?s1" using hl dl by (rule Nd.IH(1))
  have h1a: "heap ?s1 a = Some ?cell" using ha na(1) by (simp add: cleared_def restrict_map_def)
  have "\<forall>b \<in> set (addrs r). heap s b = heap ?s1 b" using lr by (auto simp: cleared_def restrict_map_def)
  then have "heap_tree (heap ?s1) (Some a) r" using hr by (rule heap_tree_agree)
  then have c2: "clear (ptr_of r) ?s1 = Some ?s2" using dr by (rule Nd.IH(2))
  have h2a: "heap ?s2 a = Some ?cell" using h1a na(2) by (simp add: cleared_def restrict_map_def)
  have l1: "load left (Some a) s = Some (ptr_of l)" using ha by (simp add: load_def)
  have l2: "load right (Some a) ?s1 = Some (ptr_of r)" using h1a by (simp add: load_def)
  have "((heap s |` (- set (addrs l))) |` (- set (addrs r)))(a := None)
      = heap s |` (- set (addrs (Nd l a k v c r)))"
    by (rule ext) (auto simp: restrict_map_def)
  then have rc: "recycle (Some a) ?s2 = Some (cleared (set (addrs (Nd l a k v c r)))
      (postorder (Nd l a k v c r)) s)"
    using h2a by (simp add: recycle_def cleared_def pool_recycle_def)
  show ?case using c1 c2 l1 l2 rc by (subst clear.simps) simp
qed

lemma destroy_refines:
  assumes "holds s t"
  shows "destroy s = Some \<lparr>heap = Map.empty,
      pool = (pool s)\<lparr>free_list := rev (postorder t) @ free_list (pool s)\<rparr>,
      root = root s, size_m = size_m s\<rparr>"
proof -
  have h: "heap_tree (heap s) None t" "distinct (addrs t)" "root s = ptr_of t"
    "dom (heap s) = set (addrs t)"
    using assms by (simp_all add: holds_def)
  have "heap s |` (- set (addrs t)) = Map.empty"
  proof
    fix b
    show "(heap s |` (- set (addrs t))) b = None"
      using h(4) by (cases "b \<in> set (addrs t)") (auto simp: restrict_map_def)
  qed
  then have "cleared (set (addrs t)) (postorder t) s = \<lparr>heap = Map.empty,
      pool = (pool s)\<lparr>free_list := rev (postorder t) @ free_list (pool s)\<rparr>,
      root = root s, size_m = size_m s\<rparr>"
    by (cases s) (simp add: cleared_def)
  then show ?thesis using clear_refines[OF h(1,2)] h(3) by (simp add: destroy_def)
qed

text \<open>
  Claim C8, as the code has it. \<^verbatim>\<open>clear(root)\<close>, which only the destructor calls, walks
  the tree in post-order and recycles every node: the memory of the map is empty
  afterwards and the free list of the pool has received the nodes in post-order. It does
  not touch \<^verbatim>\<open>root\<close> and \<^verbatim>\<open>size_\<close>: both keep the values they had before.
\<close>

theorem clear_recycles_every_node:
  assumes "holds s t"
  shows "destroy s = Some \<lparr>heap = Map.empty,
      pool = (pool s)\<lparr>free_list := rev (postorder t) @ free_list (pool s)\<rparr>,
      root = root s, size_m = size_m s\<rparr>"
  using assms by (rule destroy_refines)

theorem clear_recycles_every_node_witness:
  "holds (state_of (Nd (Nd Lf 1 (1::int) (7::int) RED Lf) 0 2 0 BLACK Lf)
            \<lparr>free_list = [], seg_count = 1, slots_used = 2, segment_capacity = 4\<rparr> 2)
         (Nd (Nd Lf 1 1 7 RED Lf) 0 2 0 BLACK Lf) \<and>
   destroy (state_of (Nd (Nd Lf 1 (1::int) (7::int) RED Lf) 0 2 0 BLACK Lf)
            \<lparr>free_list = [], seg_count = 1, slots_used = 2, segment_capacity = 4\<rparr> 2)
     = Some \<lparr>heap = Map.empty,
         pool = \<lparr>free_list = [0, 1], seg_count = 1, slots_used = 2, segment_capacity = 4\<rparr>,
         root = Some 0, size_m = 2\<rparr>"
proof -
  let ?t = "Nd (Nd Lf 1 (1::int) (7::int) RED Lf) 0 2 0 BLACK Lf"
  let ?s = "state_of ?t \<lparr>free_list = [], seg_count = 1, slots_used = 2, segment_capacity = 4\<rparr> 2"
  have h: "holds ?s ?t" by (rule state_of_holds) simp
  show ?thesis using h clear_recycles_every_node[OF h] by simp
qed

text \<open>
  Claim C8, as the spec has it, fails: after \<^verbatim>\<open>m[1]\<close> on an empty map, the teardown leaves
  \<^verbatim>\<open>root\<close> pointing at the recycled slot and \<^verbatim>\<open>size_\<close> at one, so \<^verbatim>\<open>empty()\<close> is false.
\<close>

theorem clear_keeps_root_and_size:
  "map_option root (Option.bind (run [Upsert (1::int)] (empty_map 4 :: (int, int) PooledMap)) destroy)
     = Some (Some 0) \<and>
   map_option size_of (Option.bind (run [Upsert (1::int)] (empty_map 4 :: (int, int) PooledMap)) destroy)
     = Some 1 \<and>
   map_option empty (Option.bind (run [Upsert (1::int)] (empty_map 4 :: (int, int) PooledMap)) destroy)
     = Some False"
  by code_simp

section \<open>Erase fixup\<close>

fun del_case1 :: "('k, 'v) frame \<Rightarrow> ('k, 'v) frame list \<Rightarrow> ('k, 'v) frame \<times> ('k, 'v) frame list" where
  "del_case1 (InL p kp vp cp (Nd wl wa kw vw RED wr)) c = (InL p kp vp RED wl, InL wa kw vw BLACK wr # c)"
| "del_case1 (InR (Nd wl wa kw vw RED wr) p kp vp cp) c = (InR wr p kp vp RED, InR wl wa kw vw BLACK # c)"
| "del_case1 f c = (f, c)"

fun del_rest :: "('k, 'v) frame \<Rightarrow> ('k, 'v) frame list \<Rightarrow> ('k, 'v) tree
    \<Rightarrow> (ptr \<times> ('k, 'v) frame list \<times> ('k, 'v) tree) option" where
  "del_rest (InL p kp vp cp (Nd wl wa kw vw cw wr)) c t =
     (if rcolor wl = BLACK \<and> rcolor wr = BLACK
      then Some (cpar c, c, Nd t p kp vp cp (Nd wl wa kw vw RED wr))
      else if rcolor wr = BLACK then
        (case wl of Lf \<Rightarrow> None
         | Nd a la kl vl cl b \<Rightarrow>
             Some (Some p, [], plug c (Nd (Nd t p kp vp BLACK a) la kl vl cp (Nd b wa kw vw BLACK wr))))
      else Some (Some p, [], plug c (Nd (Nd t p kp vp BLACK wl) wa kw vw cp (blacken wr))))"
| "del_rest (InR (Nd wl wa kw vw cw wr) p kp vp cp) c t =
     (if rcolor wr = BLACK \<and> rcolor wl = BLACK
      then Some (cpar c, c, Nd (Nd wl wa kw vw RED wr) p kp vp cp t)
      else if rcolor wl = BLACK then
        (case wr of Lf \<Rightarrow> None
         | Nd a ra kr vr cr b \<Rightarrow>
             Some (Some p, [], plug c (Nd (Nd wl wa kw vw BLACK a) ra kr vr cp (Nd b p kp vp BLACK t))))
      else Some (Some p, [], plug c (Nd (blacken wl) wa kw vw cp (Nd wr p kp vp BLACK t))))"
| "del_rest f c t = None"

fun del_step :: "('k, 'v) frame list \<Rightarrow> ('k, 'v) tree \<Rightarrow> (ptr \<times> ('k, 'v) frame list \<times> ('k, 'v) tree) option" where
  "del_step [] t = None"
| "del_step (f # c) t = (case del_case1 f c of (f', c') \<Rightarrow> del_rest f' c' t)"

lemma tree_cases3:
  obtains (leaf) "t = Lf" | (red) l a k v r where "t = Nd l a k v RED r"
  | (black) l a k v r where "t = Nd l a k v BLACK r"
  by (cases t; cases "rcolor t") auto

text \<open>
  Distinctness of the addresses as an opaque fact: all trees of one fixup pass list their
  addresses in the same order, so the fact carries over without being taken apart.
\<close>

definition nodup :: "nat list \<Rightarrow> bool" where
  "nodup xs = distinct xs"

lemma addrs_plug_nf: "addrs (plug c t) = map fst (cbefore c) @ addrs t @ map fst (cafter c)"
  by (simp add: addrs_inorder inorder_plug)


lemma load_focus:
  "nodup (addrs (plug c (Nd l a k v col r))) \<Longrightarrow>
   load f (Some a) (state_of (plug c (Nd l a k v col r)) p n)
     = Some (f \<lparr>key = k, val = v, left = ptr_of l, right = ptr_of r, parent = cpar c, color = col\<rparr>)"
  by (simp add: nodup_def load_state_of)

lemma paint_focus:
  "nodup (addrs (plug c (Nd l a k v col r))) \<Longrightarrow>
   set_color (Some a) col' (state_of (plug c (Nd l a k v col r)) p n)
     = Some (state_of (plug c (Nd l a k v col' r)) p n)"
  by (simp add: nodup_def set_color_state_of paint_plug)

lemma rotl_focus_nd:
  "nodup (addrs (plug c (Nd ta x kx vx cx (Nd tb y ky vy cy td)))) \<Longrightarrow>
   rotate_left (Some x) (state_of (plug c (Nd ta x kx vx cx (Nd tb y ky vy cy td))) p n)
     = Some (state_of (plug c (Nd (Nd ta x kx vx cx tb) y ky vy cy td)) p n)"
  unfolding nodup_def by (rule rotate_left_state)

lemma rotr_focus_nd:
  "nodup (addrs (plug c (Nd (Nd ta y ky vy cy tb) x kx vx cx td))) \<Longrightarrow>
   rotate_right (Some x) (state_of (plug c (Nd (Nd ta y ky vy cy tb) x kx vx cx td)) p n)
     = Some (state_of (plug c (Nd ta y ky vy cy (Nd tb x kx vx cx td))) p n)"
  unfolding nodup_def by (rule rotate_right_state)

subsection \<open>The primitives at fixed positions below the context\<close>

lemma load_at_E:
  "nodup (addrs (plug c (Nd l a k v col r))) \<Longrightarrow>
   load f (Some a) (state_of (plug c (Nd l a k v col r)) p n)
     = Some (f \<lparr>key = k, val = v, left = ptr_of l, right = ptr_of r, parent = cpar c, color = col\<rparr>)"
  using load_focus[of "c" l a k v col r f p n] by simp

lemma paint_at_E:
  "nodup (addrs (plug c (Nd l a k v col r))) \<Longrightarrow>
   set_color (Some a) col' (state_of (plug c (Nd l a k v col r)) p n)
     = Some (state_of (plug c (Nd l a k v col' r)) p n)"
  using paint_focus[of "c" l a k v col r col' p n] by simp

lemma rotl_at_E:
  "nodup (addrs (plug c (Nd ta x kx vx cx (Nd tb y ky vy cy td)))) \<Longrightarrow>
   rotate_left (Some x) (state_of (plug c (Nd ta x kx vx cx (Nd tb y ky vy cy td))) p n)
     = Some (state_of (plug c (Nd (Nd ta x kx vx cx tb) y ky vy cy td)) p n)"
  using rotl_focus_nd[of "c" ta x kx vx cx tb y ky vy cy td p n] by simp

lemma rotr_at_E:
  "nodup (addrs (plug c (Nd (Nd ta y ky vy cy tb) x kx vx cx td))) \<Longrightarrow>
   rotate_right (Some x) (state_of (plug c (Nd (Nd ta y ky vy cy tb) x kx vx cx td)) p n)
     = Some (state_of (plug c (Nd ta y ky vy cy (Nd tb x kx vx cx td))) p n)"
  using rotr_focus_nd[of "c" ta y ky vy cy tb x kx vx cx td p n] by simp

lemma load_at_L:
  "nodup (addrs (plug c (Nd (Nd l a k v col r) a1 k1 v1 c1 s1))) \<Longrightarrow>
   load f (Some a) (state_of (plug c (Nd (Nd l a k v col r) a1 k1 v1 c1 s1)) p n)
     = Some (f \<lparr>key = k, val = v, left = ptr_of l, right = ptr_of r, parent = Some a1, color = col\<rparr>)"
  using load_focus[of "InL a1 k1 v1 c1 s1 # c" l a k v col r f p n] by simp

lemma paint_at_L:
  "nodup (addrs (plug c (Nd (Nd l a k v col r) a1 k1 v1 c1 s1))) \<Longrightarrow>
   set_color (Some a) col' (state_of (plug c (Nd (Nd l a k v col r) a1 k1 v1 c1 s1)) p n)
     = Some (state_of (plug c (Nd (Nd l a k v col' r) a1 k1 v1 c1 s1)) p n)"
  using paint_focus[of "InL a1 k1 v1 c1 s1 # c" l a k v col r col' p n] by simp

lemma rotl_at_L:
  "nodup (addrs (plug c (Nd (Nd ta x kx vx cx (Nd tb y ky vy cy td)) a1 k1 v1 c1 s1))) \<Longrightarrow>
   rotate_left (Some x) (state_of (plug c (Nd (Nd ta x kx vx cx (Nd tb y ky vy cy td)) a1 k1 v1 c1 s1)) p n)
     = Some (state_of (plug c (Nd (Nd (Nd ta x kx vx cx tb) y ky vy cy td) a1 k1 v1 c1 s1)) p n)"
  using rotl_focus_nd[of "InL a1 k1 v1 c1 s1 # c" ta x kx vx cx tb y ky vy cy td p n] by simp

lemma rotr_at_L:
  "nodup (addrs (plug c (Nd (Nd (Nd ta y ky vy cy tb) x kx vx cx td) a1 k1 v1 c1 s1))) \<Longrightarrow>
   rotate_right (Some x) (state_of (plug c (Nd (Nd (Nd ta y ky vy cy tb) x kx vx cx td) a1 k1 v1 c1 s1)) p n)
     = Some (state_of (plug c (Nd (Nd ta y ky vy cy (Nd tb x kx vx cx td)) a1 k1 v1 c1 s1)) p n)"
  using rotr_focus_nd[of "InL a1 k1 v1 c1 s1 # c" ta y ky vy cy tb x kx vx cx td p n] by simp

lemma load_at_R:
  "nodup (addrs (plug c (Nd s1 a1 k1 v1 c1 (Nd l a k v col r)))) \<Longrightarrow>
   load f (Some a) (state_of (plug c (Nd s1 a1 k1 v1 c1 (Nd l a k v col r))) p n)
     = Some (f \<lparr>key = k, val = v, left = ptr_of l, right = ptr_of r, parent = Some a1, color = col\<rparr>)"
  using load_focus[of "InR s1 a1 k1 v1 c1 # c" l a k v col r f p n] by simp

lemma paint_at_R:
  "nodup (addrs (plug c (Nd s1 a1 k1 v1 c1 (Nd l a k v col r)))) \<Longrightarrow>
   set_color (Some a) col' (state_of (plug c (Nd s1 a1 k1 v1 c1 (Nd l a k v col r))) p n)
     = Some (state_of (plug c (Nd s1 a1 k1 v1 c1 (Nd l a k v col' r))) p n)"
  using paint_focus[of "InR s1 a1 k1 v1 c1 # c" l a k v col r col' p n] by simp

lemma rotl_at_R:
  "nodup (addrs (plug c (Nd s1 a1 k1 v1 c1 (Nd ta x kx vx cx (Nd tb y ky vy cy td))))) \<Longrightarrow>
   rotate_left (Some x) (state_of (plug c (Nd s1 a1 k1 v1 c1 (Nd ta x kx vx cx (Nd tb y ky vy cy td)))) p n)
     = Some (state_of (plug c (Nd s1 a1 k1 v1 c1 (Nd (Nd ta x kx vx cx tb) y ky vy cy td))) p n)"
  using rotl_focus_nd[of "InR s1 a1 k1 v1 c1 # c" ta x kx vx cx tb y ky vy cy td p n] by simp

lemma rotr_at_R:
  "nodup (addrs (plug c (Nd s1 a1 k1 v1 c1 (Nd (Nd ta y ky vy cy tb) x kx vx cx td)))) \<Longrightarrow>
   rotate_right (Some x) (state_of (plug c (Nd s1 a1 k1 v1 c1 (Nd (Nd ta y ky vy cy tb) x kx vx cx td))) p n)
     = Some (state_of (plug c (Nd s1 a1 k1 v1 c1 (Nd ta y ky vy cy (Nd tb x kx vx cx td)))) p n)"
  using rotr_focus_nd[of "InR s1 a1 k1 v1 c1 # c" ta y ky vy cy tb x kx vx cx td p n] by simp

lemma load_at_LL:
  "nodup (addrs (plug c (Nd (Nd (Nd l a k v col r) a2 k2 v2 c2 s2) a1 k1 v1 c1 s1))) \<Longrightarrow>
   load f (Some a) (state_of (plug c (Nd (Nd (Nd l a k v col r) a2 k2 v2 c2 s2) a1 k1 v1 c1 s1)) p n)
     = Some (f \<lparr>key = k, val = v, left = ptr_of l, right = ptr_of r, parent = Some a2, color = col\<rparr>)"
  using load_focus[of "InL a2 k2 v2 c2 s2 # InL a1 k1 v1 c1 s1 # c" l a k v col r f p n] by simp

lemma paint_at_LL:
  "nodup (addrs (plug c (Nd (Nd (Nd l a k v col r) a2 k2 v2 c2 s2) a1 k1 v1 c1 s1))) \<Longrightarrow>
   set_color (Some a) col' (state_of (plug c (Nd (Nd (Nd l a k v col r) a2 k2 v2 c2 s2) a1 k1 v1 c1 s1)) p n)
     = Some (state_of (plug c (Nd (Nd (Nd l a k v col' r) a2 k2 v2 c2 s2) a1 k1 v1 c1 s1)) p n)"
  using paint_focus[of "InL a2 k2 v2 c2 s2 # InL a1 k1 v1 c1 s1 # c" l a k v col r col' p n] by simp

lemma rotl_at_LL:
  "nodup (addrs (plug c (Nd (Nd (Nd ta x kx vx cx (Nd tb y ky vy cy td)) a2 k2 v2 c2 s2) a1 k1 v1 c1 s1))) \<Longrightarrow>
   rotate_left (Some x) (state_of (plug c (Nd (Nd (Nd ta x kx vx cx (Nd tb y ky vy cy td)) a2 k2 v2 c2 s2) a1 k1 v1 c1 s1)) p n)
     = Some (state_of (plug c (Nd (Nd (Nd (Nd ta x kx vx cx tb) y ky vy cy td) a2 k2 v2 c2 s2) a1 k1 v1 c1 s1)) p n)"
  using rotl_focus_nd[of "InL a2 k2 v2 c2 s2 # InL a1 k1 v1 c1 s1 # c" ta x kx vx cx tb y ky vy cy td p n] by simp

lemma rotr_at_LL:
  "nodup (addrs (plug c (Nd (Nd (Nd (Nd ta y ky vy cy tb) x kx vx cx td) a2 k2 v2 c2 s2) a1 k1 v1 c1 s1))) \<Longrightarrow>
   rotate_right (Some x) (state_of (plug c (Nd (Nd (Nd (Nd ta y ky vy cy tb) x kx vx cx td) a2 k2 v2 c2 s2) a1 k1 v1 c1 s1)) p n)
     = Some (state_of (plug c (Nd (Nd (Nd ta y ky vy cy (Nd tb x kx vx cx td)) a2 k2 v2 c2 s2) a1 k1 v1 c1 s1)) p n)"
  using rotr_focus_nd[of "InL a2 k2 v2 c2 s2 # InL a1 k1 v1 c1 s1 # c" ta y ky vy cy tb x kx vx cx td p n] by simp

lemma load_at_LR:
  "nodup (addrs (plug c (Nd (Nd s2 a2 k2 v2 c2 (Nd l a k v col r)) a1 k1 v1 c1 s1))) \<Longrightarrow>
   load f (Some a) (state_of (plug c (Nd (Nd s2 a2 k2 v2 c2 (Nd l a k v col r)) a1 k1 v1 c1 s1)) p n)
     = Some (f \<lparr>key = k, val = v, left = ptr_of l, right = ptr_of r, parent = Some a2, color = col\<rparr>)"
  using load_focus[of "InR s2 a2 k2 v2 c2 # InL a1 k1 v1 c1 s1 # c" l a k v col r f p n] by simp

lemma paint_at_LR:
  "nodup (addrs (plug c (Nd (Nd s2 a2 k2 v2 c2 (Nd l a k v col r)) a1 k1 v1 c1 s1))) \<Longrightarrow>
   set_color (Some a) col' (state_of (plug c (Nd (Nd s2 a2 k2 v2 c2 (Nd l a k v col r)) a1 k1 v1 c1 s1)) p n)
     = Some (state_of (plug c (Nd (Nd s2 a2 k2 v2 c2 (Nd l a k v col' r)) a1 k1 v1 c1 s1)) p n)"
  using paint_focus[of "InR s2 a2 k2 v2 c2 # InL a1 k1 v1 c1 s1 # c" l a k v col r col' p n] by simp

lemma rotl_at_LR:
  "nodup (addrs (plug c (Nd (Nd s2 a2 k2 v2 c2 (Nd ta x kx vx cx (Nd tb y ky vy cy td))) a1 k1 v1 c1 s1))) \<Longrightarrow>
   rotate_left (Some x) (state_of (plug c (Nd (Nd s2 a2 k2 v2 c2 (Nd ta x kx vx cx (Nd tb y ky vy cy td))) a1 k1 v1 c1 s1)) p n)
     = Some (state_of (plug c (Nd (Nd s2 a2 k2 v2 c2 (Nd (Nd ta x kx vx cx tb) y ky vy cy td)) a1 k1 v1 c1 s1)) p n)"
  using rotl_focus_nd[of "InR s2 a2 k2 v2 c2 # InL a1 k1 v1 c1 s1 # c" ta x kx vx cx tb y ky vy cy td p n] by simp

lemma rotr_at_LR:
  "nodup (addrs (plug c (Nd (Nd s2 a2 k2 v2 c2 (Nd (Nd ta y ky vy cy tb) x kx vx cx td)) a1 k1 v1 c1 s1))) \<Longrightarrow>
   rotate_right (Some x) (state_of (plug c (Nd (Nd s2 a2 k2 v2 c2 (Nd (Nd ta y ky vy cy tb) x kx vx cx td)) a1 k1 v1 c1 s1)) p n)
     = Some (state_of (plug c (Nd (Nd s2 a2 k2 v2 c2 (Nd ta y ky vy cy (Nd tb x kx vx cx td))) a1 k1 v1 c1 s1)) p n)"
  using rotr_focus_nd[of "InR s2 a2 k2 v2 c2 # InL a1 k1 v1 c1 s1 # c" ta y ky vy cy tb x kx vx cx td p n] by simp

lemma load_at_RL:
  "nodup (addrs (plug c (Nd s1 a1 k1 v1 c1 (Nd (Nd l a k v col r) a2 k2 v2 c2 s2)))) \<Longrightarrow>
   load f (Some a) (state_of (plug c (Nd s1 a1 k1 v1 c1 (Nd (Nd l a k v col r) a2 k2 v2 c2 s2))) p n)
     = Some (f \<lparr>key = k, val = v, left = ptr_of l, right = ptr_of r, parent = Some a2, color = col\<rparr>)"
  using load_focus[of "InL a2 k2 v2 c2 s2 # InR s1 a1 k1 v1 c1 # c" l a k v col r f p n] by simp

lemma paint_at_RL:
  "nodup (addrs (plug c (Nd s1 a1 k1 v1 c1 (Nd (Nd l a k v col r) a2 k2 v2 c2 s2)))) \<Longrightarrow>
   set_color (Some a) col' (state_of (plug c (Nd s1 a1 k1 v1 c1 (Nd (Nd l a k v col r) a2 k2 v2 c2 s2))) p n)
     = Some (state_of (plug c (Nd s1 a1 k1 v1 c1 (Nd (Nd l a k v col' r) a2 k2 v2 c2 s2))) p n)"
  using paint_focus[of "InL a2 k2 v2 c2 s2 # InR s1 a1 k1 v1 c1 # c" l a k v col r col' p n] by simp

lemma rotl_at_RL:
  "nodup (addrs (plug c (Nd s1 a1 k1 v1 c1 (Nd (Nd ta x kx vx cx (Nd tb y ky vy cy td)) a2 k2 v2 c2 s2)))) \<Longrightarrow>
   rotate_left (Some x) (state_of (plug c (Nd s1 a1 k1 v1 c1 (Nd (Nd ta x kx vx cx (Nd tb y ky vy cy td)) a2 k2 v2 c2 s2))) p n)
     = Some (state_of (plug c (Nd s1 a1 k1 v1 c1 (Nd (Nd (Nd ta x kx vx cx tb) y ky vy cy td) a2 k2 v2 c2 s2))) p n)"
  using rotl_focus_nd[of "InL a2 k2 v2 c2 s2 # InR s1 a1 k1 v1 c1 # c" ta x kx vx cx tb y ky vy cy td p n] by simp

lemma rotr_at_RL:
  "nodup (addrs (plug c (Nd s1 a1 k1 v1 c1 (Nd (Nd (Nd ta y ky vy cy tb) x kx vx cx td) a2 k2 v2 c2 s2)))) \<Longrightarrow>
   rotate_right (Some x) (state_of (plug c (Nd s1 a1 k1 v1 c1 (Nd (Nd (Nd ta y ky vy cy tb) x kx vx cx td) a2 k2 v2 c2 s2))) p n)
     = Some (state_of (plug c (Nd s1 a1 k1 v1 c1 (Nd (Nd ta y ky vy cy (Nd tb x kx vx cx td)) a2 k2 v2 c2 s2))) p n)"
  using rotr_focus_nd[of "InL a2 k2 v2 c2 s2 # InR s1 a1 k1 v1 c1 # c" ta y ky vy cy tb x kx vx cx td p n] by simp

lemma load_at_RR:
  "nodup (addrs (plug c (Nd s1 a1 k1 v1 c1 (Nd s2 a2 k2 v2 c2 (Nd l a k v col r))))) \<Longrightarrow>
   load f (Some a) (state_of (plug c (Nd s1 a1 k1 v1 c1 (Nd s2 a2 k2 v2 c2 (Nd l a k v col r)))) p n)
     = Some (f \<lparr>key = k, val = v, left = ptr_of l, right = ptr_of r, parent = Some a2, color = col\<rparr>)"
  using load_focus[of "InR s2 a2 k2 v2 c2 # InR s1 a1 k1 v1 c1 # c" l a k v col r f p n] by simp

lemma paint_at_RR:
  "nodup (addrs (plug c (Nd s1 a1 k1 v1 c1 (Nd s2 a2 k2 v2 c2 (Nd l a k v col r))))) \<Longrightarrow>
   set_color (Some a) col' (state_of (plug c (Nd s1 a1 k1 v1 c1 (Nd s2 a2 k2 v2 c2 (Nd l a k v col r)))) p n)
     = Some (state_of (plug c (Nd s1 a1 k1 v1 c1 (Nd s2 a2 k2 v2 c2 (Nd l a k v col' r)))) p n)"
  using paint_focus[of "InR s2 a2 k2 v2 c2 # InR s1 a1 k1 v1 c1 # c" l a k v col r col' p n] by simp

lemma rotl_at_RR:
  "nodup (addrs (plug c (Nd s1 a1 k1 v1 c1 (Nd s2 a2 k2 v2 c2 (Nd ta x kx vx cx (Nd tb y ky vy cy td)))))) \<Longrightarrow>
   rotate_left (Some x) (state_of (plug c (Nd s1 a1 k1 v1 c1 (Nd s2 a2 k2 v2 c2 (Nd ta x kx vx cx (Nd tb y ky vy cy td))))) p n)
     = Some (state_of (plug c (Nd s1 a1 k1 v1 c1 (Nd s2 a2 k2 v2 c2 (Nd (Nd ta x kx vx cx tb) y ky vy cy td)))) p n)"
  using rotl_focus_nd[of "InR s2 a2 k2 v2 c2 # InR s1 a1 k1 v1 c1 # c" ta x kx vx cx tb y ky vy cy td p n] by simp

lemma rotr_at_RR:
  "nodup (addrs (plug c (Nd s1 a1 k1 v1 c1 (Nd s2 a2 k2 v2 c2 (Nd (Nd ta y ky vy cy tb) x kx vx cx td))))) \<Longrightarrow>
   rotate_right (Some x) (state_of (plug c (Nd s1 a1 k1 v1 c1 (Nd s2 a2 k2 v2 c2 (Nd (Nd ta y ky vy cy tb) x kx vx cx td)))) p n)
     = Some (state_of (plug c (Nd s1 a1 k1 v1 c1 (Nd s2 a2 k2 v2 c2 (Nd ta y ky vy cy (Nd tb x kx vx cx td))))) p n)"
  using rotr_focus_nd[of "InR s2 a2 k2 v2 c2 # InR s1 a1 k1 v1 c1 # c" ta y ky vy cy tb x kx vx cx td p n] by simp

lemma load_at_LRL:
  "nodup (addrs (plug c (Nd (Nd s2 a2 k2 v2 c2 (Nd (Nd l a k v col r) a3 k3 v3 c3 s3)) a1 k1 v1 c1 s1))) \<Longrightarrow>
   load f (Some a) (state_of (plug c (Nd (Nd s2 a2 k2 v2 c2 (Nd (Nd l a k v col r) a3 k3 v3 c3 s3)) a1 k1 v1 c1 s1)) p n)
     = Some (f \<lparr>key = k, val = v, left = ptr_of l, right = ptr_of r, parent = Some a3, color = col\<rparr>)"
  using load_focus[of "InL a3 k3 v3 c3 s3 # InR s2 a2 k2 v2 c2 # InL a1 k1 v1 c1 s1 # c" l a k v col r f p n] by simp

lemma paint_at_LRL:
  "nodup (addrs (plug c (Nd (Nd s2 a2 k2 v2 c2 (Nd (Nd l a k v col r) a3 k3 v3 c3 s3)) a1 k1 v1 c1 s1))) \<Longrightarrow>
   set_color (Some a) col' (state_of (plug c (Nd (Nd s2 a2 k2 v2 c2 (Nd (Nd l a k v col r) a3 k3 v3 c3 s3)) a1 k1 v1 c1 s1)) p n)
     = Some (state_of (plug c (Nd (Nd s2 a2 k2 v2 c2 (Nd (Nd l a k v col' r) a3 k3 v3 c3 s3)) a1 k1 v1 c1 s1)) p n)"
  using paint_focus[of "InL a3 k3 v3 c3 s3 # InR s2 a2 k2 v2 c2 # InL a1 k1 v1 c1 s1 # c" l a k v col r col' p n] by simp

lemma rotl_at_LRL:
  "nodup (addrs (plug c (Nd (Nd s2 a2 k2 v2 c2 (Nd (Nd ta x kx vx cx (Nd tb y ky vy cy td)) a3 k3 v3 c3 s3)) a1 k1 v1 c1 s1))) \<Longrightarrow>
   rotate_left (Some x) (state_of (plug c (Nd (Nd s2 a2 k2 v2 c2 (Nd (Nd ta x kx vx cx (Nd tb y ky vy cy td)) a3 k3 v3 c3 s3)) a1 k1 v1 c1 s1)) p n)
     = Some (state_of (plug c (Nd (Nd s2 a2 k2 v2 c2 (Nd (Nd (Nd ta x kx vx cx tb) y ky vy cy td) a3 k3 v3 c3 s3)) a1 k1 v1 c1 s1)) p n)"
  using rotl_focus_nd[of "InL a3 k3 v3 c3 s3 # InR s2 a2 k2 v2 c2 # InL a1 k1 v1 c1 s1 # c" ta x kx vx cx tb y ky vy cy td p n] by simp

lemma rotr_at_LRL:
  "nodup (addrs (plug c (Nd (Nd s2 a2 k2 v2 c2 (Nd (Nd (Nd ta y ky vy cy tb) x kx vx cx td) a3 k3 v3 c3 s3)) a1 k1 v1 c1 s1))) \<Longrightarrow>
   rotate_right (Some x) (state_of (plug c (Nd (Nd s2 a2 k2 v2 c2 (Nd (Nd (Nd ta y ky vy cy tb) x kx vx cx td) a3 k3 v3 c3 s3)) a1 k1 v1 c1 s1)) p n)
     = Some (state_of (plug c (Nd (Nd s2 a2 k2 v2 c2 (Nd (Nd ta y ky vy cy (Nd tb x kx vx cx td)) a3 k3 v3 c3 s3)) a1 k1 v1 c1 s1)) p n)"
  using rotr_focus_nd[of "InL a3 k3 v3 c3 s3 # InR s2 a2 k2 v2 c2 # InL a1 k1 v1 c1 s1 # c" ta y ky vy cy tb x kx vx cx td p n] by simp

lemma load_at_LRR:
  "nodup (addrs (plug c (Nd (Nd s2 a2 k2 v2 c2 (Nd s3 a3 k3 v3 c3 (Nd l a k v col r))) a1 k1 v1 c1 s1))) \<Longrightarrow>
   load f (Some a) (state_of (plug c (Nd (Nd s2 a2 k2 v2 c2 (Nd s3 a3 k3 v3 c3 (Nd l a k v col r))) a1 k1 v1 c1 s1)) p n)
     = Some (f \<lparr>key = k, val = v, left = ptr_of l, right = ptr_of r, parent = Some a3, color = col\<rparr>)"
  using load_focus[of "InR s3 a3 k3 v3 c3 # InR s2 a2 k2 v2 c2 # InL a1 k1 v1 c1 s1 # c" l a k v col r f p n] by simp

lemma paint_at_LRR:
  "nodup (addrs (plug c (Nd (Nd s2 a2 k2 v2 c2 (Nd s3 a3 k3 v3 c3 (Nd l a k v col r))) a1 k1 v1 c1 s1))) \<Longrightarrow>
   set_color (Some a) col' (state_of (plug c (Nd (Nd s2 a2 k2 v2 c2 (Nd s3 a3 k3 v3 c3 (Nd l a k v col r))) a1 k1 v1 c1 s1)) p n)
     = Some (state_of (plug c (Nd (Nd s2 a2 k2 v2 c2 (Nd s3 a3 k3 v3 c3 (Nd l a k v col' r))) a1 k1 v1 c1 s1)) p n)"
  using paint_focus[of "InR s3 a3 k3 v3 c3 # InR s2 a2 k2 v2 c2 # InL a1 k1 v1 c1 s1 # c" l a k v col r col' p n] by simp

lemma rotl_at_LRR:
  "nodup (addrs (plug c (Nd (Nd s2 a2 k2 v2 c2 (Nd s3 a3 k3 v3 c3 (Nd ta x kx vx cx (Nd tb y ky vy cy td)))) a1 k1 v1 c1 s1))) \<Longrightarrow>
   rotate_left (Some x) (state_of (plug c (Nd (Nd s2 a2 k2 v2 c2 (Nd s3 a3 k3 v3 c3 (Nd ta x kx vx cx (Nd tb y ky vy cy td)))) a1 k1 v1 c1 s1)) p n)
     = Some (state_of (plug c (Nd (Nd s2 a2 k2 v2 c2 (Nd s3 a3 k3 v3 c3 (Nd (Nd ta x kx vx cx tb) y ky vy cy td))) a1 k1 v1 c1 s1)) p n)"
  using rotl_focus_nd[of "InR s3 a3 k3 v3 c3 # InR s2 a2 k2 v2 c2 # InL a1 k1 v1 c1 s1 # c" ta x kx vx cx tb y ky vy cy td p n] by simp

lemma rotr_at_LRR:
  "nodup (addrs (plug c (Nd (Nd s2 a2 k2 v2 c2 (Nd s3 a3 k3 v3 c3 (Nd (Nd ta y ky vy cy tb) x kx vx cx td))) a1 k1 v1 c1 s1))) \<Longrightarrow>
   rotate_right (Some x) (state_of (plug c (Nd (Nd s2 a2 k2 v2 c2 (Nd s3 a3 k3 v3 c3 (Nd (Nd ta y ky vy cy tb) x kx vx cx td))) a1 k1 v1 c1 s1)) p n)
     = Some (state_of (plug c (Nd (Nd s2 a2 k2 v2 c2 (Nd s3 a3 k3 v3 c3 (Nd ta y ky vy cy (Nd tb x kx vx cx td)))) a1 k1 v1 c1 s1)) p n)"
  using rotr_focus_nd[of "InR s3 a3 k3 v3 c3 # InR s2 a2 k2 v2 c2 # InL a1 k1 v1 c1 s1 # c" ta y ky vy cy tb x kx vx cx td p n] by simp

lemma load_at_RLL:
  "nodup (addrs (plug c (Nd s1 a1 k1 v1 c1 (Nd (Nd (Nd l a k v col r) a3 k3 v3 c3 s3) a2 k2 v2 c2 s2)))) \<Longrightarrow>
   load f (Some a) (state_of (plug c (Nd s1 a1 k1 v1 c1 (Nd (Nd (Nd l a k v col r) a3 k3 v3 c3 s3) a2 k2 v2 c2 s2))) p n)
     = Some (f \<lparr>key = k, val = v, left = ptr_of l, right = ptr_of r, parent = Some a3, color = col\<rparr>)"
  using load_focus[of "InL a3 k3 v3 c3 s3 # InL a2 k2 v2 c2 s2 # InR s1 a1 k1 v1 c1 # c" l a k v col r f p n] by simp

lemma paint_at_RLL:
  "nodup (addrs (plug c (Nd s1 a1 k1 v1 c1 (Nd (Nd (Nd l a k v col r) a3 k3 v3 c3 s3) a2 k2 v2 c2 s2)))) \<Longrightarrow>
   set_color (Some a) col' (state_of (plug c (Nd s1 a1 k1 v1 c1 (Nd (Nd (Nd l a k v col r) a3 k3 v3 c3 s3) a2 k2 v2 c2 s2))) p n)
     = Some (state_of (plug c (Nd s1 a1 k1 v1 c1 (Nd (Nd (Nd l a k v col' r) a3 k3 v3 c3 s3) a2 k2 v2 c2 s2))) p n)"
  using paint_focus[of "InL a3 k3 v3 c3 s3 # InL a2 k2 v2 c2 s2 # InR s1 a1 k1 v1 c1 # c" l a k v col r col' p n] by simp

lemma rotl_at_RLL:
  "nodup (addrs (plug c (Nd s1 a1 k1 v1 c1 (Nd (Nd (Nd ta x kx vx cx (Nd tb y ky vy cy td)) a3 k3 v3 c3 s3) a2 k2 v2 c2 s2)))) \<Longrightarrow>
   rotate_left (Some x) (state_of (plug c (Nd s1 a1 k1 v1 c1 (Nd (Nd (Nd ta x kx vx cx (Nd tb y ky vy cy td)) a3 k3 v3 c3 s3) a2 k2 v2 c2 s2))) p n)
     = Some (state_of (plug c (Nd s1 a1 k1 v1 c1 (Nd (Nd (Nd (Nd ta x kx vx cx tb) y ky vy cy td) a3 k3 v3 c3 s3) a2 k2 v2 c2 s2))) p n)"
  using rotl_focus_nd[of "InL a3 k3 v3 c3 s3 # InL a2 k2 v2 c2 s2 # InR s1 a1 k1 v1 c1 # c" ta x kx vx cx tb y ky vy cy td p n] by simp

lemma rotr_at_RLL:
  "nodup (addrs (plug c (Nd s1 a1 k1 v1 c1 (Nd (Nd (Nd (Nd ta y ky vy cy tb) x kx vx cx td) a3 k3 v3 c3 s3) a2 k2 v2 c2 s2)))) \<Longrightarrow>
   rotate_right (Some x) (state_of (plug c (Nd s1 a1 k1 v1 c1 (Nd (Nd (Nd (Nd ta y ky vy cy tb) x kx vx cx td) a3 k3 v3 c3 s3) a2 k2 v2 c2 s2))) p n)
     = Some (state_of (plug c (Nd s1 a1 k1 v1 c1 (Nd (Nd (Nd ta y ky vy cy (Nd tb x kx vx cx td)) a3 k3 v3 c3 s3) a2 k2 v2 c2 s2))) p n)"
  using rotr_focus_nd[of "InL a3 k3 v3 c3 s3 # InL a2 k2 v2 c2 s2 # InR s1 a1 k1 v1 c1 # c" ta y ky vy cy tb x kx vx cx td p n] by simp

lemma load_at_RLR:
  "nodup (addrs (plug c (Nd s1 a1 k1 v1 c1 (Nd (Nd s3 a3 k3 v3 c3 (Nd l a k v col r)) a2 k2 v2 c2 s2)))) \<Longrightarrow>
   load f (Some a) (state_of (plug c (Nd s1 a1 k1 v1 c1 (Nd (Nd s3 a3 k3 v3 c3 (Nd l a k v col r)) a2 k2 v2 c2 s2))) p n)
     = Some (f \<lparr>key = k, val = v, left = ptr_of l, right = ptr_of r, parent = Some a3, color = col\<rparr>)"
  using load_focus[of "InR s3 a3 k3 v3 c3 # InL a2 k2 v2 c2 s2 # InR s1 a1 k1 v1 c1 # c" l a k v col r f p n] by simp

lemma paint_at_RLR:
  "nodup (addrs (plug c (Nd s1 a1 k1 v1 c1 (Nd (Nd s3 a3 k3 v3 c3 (Nd l a k v col r)) a2 k2 v2 c2 s2)))) \<Longrightarrow>
   set_color (Some a) col' (state_of (plug c (Nd s1 a1 k1 v1 c1 (Nd (Nd s3 a3 k3 v3 c3 (Nd l a k v col r)) a2 k2 v2 c2 s2))) p n)
     = Some (state_of (plug c (Nd s1 a1 k1 v1 c1 (Nd (Nd s3 a3 k3 v3 c3 (Nd l a k v col' r)) a2 k2 v2 c2 s2))) p n)"
  using paint_focus[of "InR s3 a3 k3 v3 c3 # InL a2 k2 v2 c2 s2 # InR s1 a1 k1 v1 c1 # c" l a k v col r col' p n] by simp

lemma rotl_at_RLR:
  "nodup (addrs (plug c (Nd s1 a1 k1 v1 c1 (Nd (Nd s3 a3 k3 v3 c3 (Nd ta x kx vx cx (Nd tb y ky vy cy td))) a2 k2 v2 c2 s2)))) \<Longrightarrow>
   rotate_left (Some x) (state_of (plug c (Nd s1 a1 k1 v1 c1 (Nd (Nd s3 a3 k3 v3 c3 (Nd ta x kx vx cx (Nd tb y ky vy cy td))) a2 k2 v2 c2 s2))) p n)
     = Some (state_of (plug c (Nd s1 a1 k1 v1 c1 (Nd (Nd s3 a3 k3 v3 c3 (Nd (Nd ta x kx vx cx tb) y ky vy cy td)) a2 k2 v2 c2 s2))) p n)"
  using rotl_focus_nd[of "InR s3 a3 k3 v3 c3 # InL a2 k2 v2 c2 s2 # InR s1 a1 k1 v1 c1 # c" ta x kx vx cx tb y ky vy cy td p n] by simp

lemma rotr_at_RLR:
  "nodup (addrs (plug c (Nd s1 a1 k1 v1 c1 (Nd (Nd s3 a3 k3 v3 c3 (Nd (Nd ta y ky vy cy tb) x kx vx cx td)) a2 k2 v2 c2 s2)))) \<Longrightarrow>
   rotate_right (Some x) (state_of (plug c (Nd s1 a1 k1 v1 c1 (Nd (Nd s3 a3 k3 v3 c3 (Nd (Nd ta y ky vy cy tb) x kx vx cx td)) a2 k2 v2 c2 s2))) p n)
     = Some (state_of (plug c (Nd s1 a1 k1 v1 c1 (Nd (Nd s3 a3 k3 v3 c3 (Nd ta y ky vy cy (Nd tb x kx vx cx td))) a2 k2 v2 c2 s2))) p n)"
  using rotr_focus_nd[of "InR s3 a3 k3 v3 c3 # InL a2 k2 v2 c2 s2 # InR s1 a1 k1 v1 c1 # c" ta y ky vy cy tb x kx vx cx td p n] by simp

lemmas pos_rules =
  load_at_E load_at_L load_at_R load_at_LL load_at_LR load_at_RL load_at_RR load_at_LRL load_at_LRR load_at_RLL load_at_RLR
  paint_at_E paint_at_L paint_at_R paint_at_LL paint_at_LR paint_at_RL paint_at_RR paint_at_LRL paint_at_LRR paint_at_RLL paint_at_RLR
  rotl_at_E rotl_at_L rotl_at_R rotl_at_LL rotl_at_LR rotl_at_RL rotl_at_RR rotl_at_LRL rotl_at_LRR rotl_at_RLL rotl_at_RLR
  rotr_at_E rotr_at_L rotr_at_R rotr_at_LL rotr_at_LR rotr_at_RL rotr_at_RR rotr_at_LRL rotr_at_LRR rotr_at_RLL rotr_at_RLR

lemmas erase_body_simps =
  pos_rules fix_erase_body_def both_black_def nonnull_red_def null_or_black_def addrs_plug_nf

lemma fix_erase_body_left_black:
  assumes "nodup (addrs (plug (InL p kp vp cp (Nd wl wa kw vw BLACK wr) # c) t))"
    and "del_step (InL p kp vp cp (Nd wl wa kw vw BLACK wr) # c) t = Some (xp', c', t')"
  shows "fix_erase_body (ptr_of t) (Some p)
           (state_of (plug (InL p kp vp cp (Nd wl wa kw vw BLACK wr) # c) t) pl n)
       = Some (ptr_of t', xp', state_of (plug c' t') pl n)"
  using assms(1) assms(2)[symmetric]
  by (cases wl rule: tree_cases3; cases wr rule: tree_cases3) (simp_all add: erase_body_simps)

lemma fix_erase_body_left_red:
  assumes "nodup (addrs (plug (InL p kp vp cp (Nd wl wa kw vw RED wr) # c) t))"
    and "del_step (InL p kp vp cp (Nd wl wa kw vw RED wr) # c) t = Some (xp', c', t')"
  shows "fix_erase_body (ptr_of t) (Some p)
           (state_of (plug (InL p kp vp cp (Nd wl wa kw vw RED wr) # c) t) pl n)
       = Some (ptr_of t', xp', state_of (plug c' t') pl n)"
proof (cases wl)
  case Lf
  then show ?thesis using assms by simp
next
  case (Nd a la kl vl cl b)
  show ?thesis using assms(1) assms(2)[symmetric] unfolding Nd
    by (cases a rule: tree_cases3; cases b rule: tree_cases3) (simp_all add: erase_body_simps)
qed

lemma fix_erase_body_right_black:
  assumes "nodup (addrs (plug (InR (Nd wl wa kw vw BLACK wr) p kp vp cp # c) t))"
    and "ptr_of t \<noteq> Some wa"
    and "del_step (InR (Nd wl wa kw vw BLACK wr) p kp vp cp # c) t = Some (xp', c', t')"
  shows "fix_erase_body (ptr_of t) (Some p)
           (state_of (plug (InR (Nd wl wa kw vw BLACK wr) p kp vp cp # c) t) pl n)
       = Some (ptr_of t', xp', state_of (plug c' t') pl n)"
  using assms(1,2) assms(3)[symmetric]
  by (cases wl rule: tree_cases3; cases wr rule: tree_cases3) (simp_all add: erase_body_simps)

lemma fix_erase_body_right_red:
  assumes "nodup (addrs (plug (InR (Nd wl wa kw vw RED wr) p kp vp cp # c) t))"
    and "ptr_of t \<noteq> Some wa"
    and "del_step (InR (Nd wl wa kw vw RED wr) p kp vp cp # c) t = Some (xp', c', t')"
  shows "fix_erase_body (ptr_of t) (Some p)
           (state_of (plug (InR (Nd wl wa kw vw RED wr) p kp vp cp # c) t) pl n)
       = Some (ptr_of t', xp', state_of (plug c' t') pl n)"
proof (cases wr)
  case Lf
  then show ?thesis using assms by simp
next
  case (Nd a ra kr vr cr b)
  show ?thesis using assms(1,2) assms(3)[symmetric] unfolding Nd
    by (cases a rule: tree_cases3; cases b rule: tree_cases3) (simp_all add: erase_body_simps)
qed

lemma fix_erase_body_refines:
  assumes "distinct (addrs (plug (f # c) t))" and "del_step (f # c) t = Some (xp', c', t')"
  shows "fix_erase_body (ptr_of t) (Some (faddr f)) (state_of (plug (f # c) t) pl n)
       = Some (ptr_of t', xp', state_of (plug c' t') pl n)"
proof (cases f)
  case (InL p kp vp cp w)
  have nd: "nodup (addrs (plug (f # c) t))" using assms(1) by (simp only: nodup_def)
  show ?thesis
  proof (cases w rule: tree_cases3)
    case leaf
    then show ?thesis using assms InL by simp
  next
    case (red wl wa kw vw wr)
    then show ?thesis using nd assms(2) InL fix_erase_body_left_red by simp
  next
    case (black wl wa kw vw wr)
    then show ?thesis using nd assms(2) InL fix_erase_body_left_black by simp
  qed
next
  case (InR w p kp vp cp)
  have nd: "nodup (addrs (plug (f # c) t))" using assms(1) by (simp only: nodup_def)
  show ?thesis
  proof (cases w rule: tree_cases3)
    case leaf
    then show ?thesis using assms InR by simp
  next
    case (red wl wa kw vw wr)
    have "wa \<notin> set (addrs t)" using assms(1) InR red by auto
    then have "ptr_of t \<noteq> Some wa" by simp
    then show ?thesis using nd assms(2) InR red fix_erase_body_right_red by simp
  next
    case (black wl wa kw vw wr)
    have "wa \<notin> set (addrs t)" using assms(1) InR black by auto
    then have "ptr_of t \<noteq> Some wa" by simp
    then show ?thesis using nd assms(2) InR black fix_erase_body_right_black by simp
  qed
qed

subsection \<open>The erase fixup loop on trees\<close>

lemma inorder_rot [simp]:
  "inorder (plug c (Nd (Nd ta x kx vx cx tb) y ky vy cy td))
     = inorder (plug c (Nd ta x kx vx cx' (Nd tb y ky vy cy' td)))"
  by (simp add: inorder_plug)

lemma del_case1_inorder:
  "del_case1 f c = (f', c') \<Longrightarrow> inorder (plug (f' # c') t) = inorder (plug (f # c) t)"
  by (induction f c rule: del_case1.induct) (auto simp: inorder_plug)

lemma del_rest_inorder:
  "del_rest f c t = Some (xp, c', t') \<Longrightarrow> inorder (plug c' t') = inorder (plug (f # c) t)"
  by (induction f c t rule: del_rest.induct)
    (auto simp: inorder_plug split: if_splits tree.splits)

lemma del_step_inorder:
  "del_step c t = Some (xp, c', t') \<Longrightarrow> inorder (plug c' t') = inorder (plug c t)"
proof (cases c)
  case Nil
  assume "del_step c t = Some (xp, c', t')"
  then show ?thesis using Nil by simp
next
  case (Cons f c0)
  assume a: "del_step c t = Some (xp, c', t')"
  obtain f1 c1 where c1: "del_case1 f c0 = (f1, c1)" by (cases "del_case1 f c0") auto
  then have "del_rest f1 c1 t = Some (xp, c', t')" using a Cons by simp
  then have "inorder (plug c' t') = inorder (plug (f1 # c1) t)" by (rule del_rest_inorder)
  then show ?thesis using del_case1_inorder[OF c1, of t] Cons by simp
qed

lemma del_case1_length: "del_case1 f c = (f', c') \<Longrightarrow> length c' \<le> length c + 1"
  by (induction f c rule: del_case1.induct) auto

lemma del_case1_red:
  "del_case1 f c = (f', c') \<Longrightarrow> length c' = length c + 1 \<Longrightarrow> fcolor f' = RED"
  by (induction f c rule: del_case1.induct) auto

lemma del_rest_shape:
  "del_rest f c t = Some (xp, c', t') \<Longrightarrow>
   (c' = [] \<or> (c' = c \<and> rcolor t' = fcolor f)) \<and> (c' \<noteq> [] \<longrightarrow> xp = cpar c')"
  by (induction f c t rule: del_rest.induct) (auto split: if_splits tree.splits)

lemma del_step_measure:
  assumes "del_step c t = Some (xp, c', t')"
  shows "2 * length c' + (if rcolor t' = BLACK then 1 else 0) < 2 * length c + 1"
proof (cases c)
  case Nil
  then show ?thesis using assms by simp
next
  case (Cons f c0)
  obtain f1 c1 where c1: "del_case1 f c0 = (f1, c1)" by (cases "del_case1 f c0") auto
  then have r: "del_rest f1 c1 t = Some (xp, c', t')" using assms Cons by simp
  note s = del_rest_shape[OF r]
  note l = del_case1_length[OF c1]
  show ?thesis
  proof (cases "c' = []")
    case True
    then show ?thesis using Cons by simp
  next
    case False
    then have e: "c' = c1" "rcolor t' = fcolor f1" using s by auto
    show ?thesis
    proof (cases "length c1 = length c0 + 1")
      case True
      then have "fcolor f1 = RED" using del_case1_red[OF c1] by simp
      then show ?thesis using e True Cons by simp
    next
      case False
      then have "length c1 \<le> length c0" using l by simp
      then show ?thesis using e Cons by simp
    qed
  qed
qed

lemma del_step_parent:
  assumes "del_step c t = Some (xp, c', t')" "c' \<noteq> []"
  shows "xp = cpar c'"
proof (cases c)
  case Nil
  then show ?thesis using assms by simp
next
  case (Cons f c0)
  obtain f1 c1 where c1: "del_case1 f c0 = (f1, c1)" by (cases "del_case1 f c0") auto
  then have r: "del_rest f1 c1 t = Some (xp, c', t')" using assms Cons by simp
  show ?thesis using del_rest_shape[OF r] assms(2) by simp
qed

function del_fix :: "('k, 'v) frame list \<Rightarrow> ('k, 'v) tree
    \<Rightarrow> (('k, 'v) frame list \<times> ('k, 'v) tree) option" where
  "del_fix c t =
     (if c \<noteq> [] \<and> rcolor t = BLACK
      then (case del_step c t of None \<Rightarrow> None | Some (xp, c', t') \<Rightarrow> del_fix c' t')
      else Some (c, t))"
  by pat_completeness auto
termination
  by (relation "measure (\<lambda>(c, t). 2 * length c + (if rcolor t = BLACK then 1 else 0))")
    (auto dest: del_step_measure)

declare del_fix.simps [simp del]

lemma ptr_of_plug_last: "c \<noteq> [] \<Longrightarrow> ptr_of (plug c t) = Some (faddr (last c))"
proof (induction c arbitrary: t)
  case Nil
  then show ?case by simp
next
  case (Cons f c)
  show ?case
  proof (cases c)
    case Nil
    then show ?thesis by simp
  next
    case (Cons g c')
    then show ?thesis using Cons.IH[of "fill f t"] by simp
  qed
qed

lemma faddr_in_caddrs: "f \<in> set c \<Longrightarrow> faddr f \<in> set (caddrs c)"
  by (induction c) auto

lemma fix_erase_cond_state:
  assumes "distinct (addrs (plug c t))"
  shows "fix_erase_cond (ptr_of t) (state_of (plug c t) p n) = Some (c \<noteq> [] \<and> rcolor t = BLACK)"
proof (cases c)
  case Nil
  then show ?thesis by (simp add: fix_erase_cond_def)
next
  case (Cons f c0)
  have "faddr (last c) \<in> set (caddrs c)" using Cons by (intro faddr_in_caddrs) simp
  then have "faddr (last c) \<notin> set (addrs t)" using assms by auto
  then have ne: "ptr_of t \<noteq> ptr_of (plug c t)"
    using ptr_of_plug_last[of c t] Cons by (cases t) auto
  show ?thesis
  proof (cases t)
    case Lf
    then show ?thesis using ne Cons by (simp add: fix_erase_cond_def null_or_black_def)
  next
    case (Nd l a k v col r)
    moreover have "c \<noteq> []" using Cons by simp
    ultimately show ?thesis using ne assms
      by (simp add: fix_erase_cond_def null_or_black_def load_state_of)
  qed
qed

lemma fix_erase_loop_refines:
  "distinct (addrs (plug c t)) \<Longrightarrow> del_fix c t = Some (c', t') \<Longrightarrow> (c \<noteq> [] \<longrightarrow> xp = cpar c) \<Longrightarrow>
   fix_erase_loop (ptr_of t) xp (state_of (plug c t) p n)
     = Some (ptr_of t', state_of (plug c' t') p n)"
proof (induction c t arbitrary: xp rule: del_fix.induct)
  case (1 c t)
  have cond: "fix_erase_cond (ptr_of t) (state_of (plug c t) p n) = Some (c \<noteq> [] \<and> rcolor t = BLACK)"
    using "1.prems"(1) by (rule fix_erase_cond_state)
  show ?case
  proof (cases "c \<noteq> [] \<and> rcolor t = BLACK")
    case False
    then have "c' = c" "t' = t" using "1.prems"(2) by (auto simp: del_fix.simps split: if_splits)
    moreover have "fix_erase_cond (ptr_of t) (state_of (plug c t) p n) = Some False"
      using False cond by auto
    ultimately show ?thesis by (subst fix_erase_loop.simps) simp
  next
    case True
    then obtain xp1 c1 t1 where st: "del_step c t = Some (xp1, c1, t1)"
      and fx: "del_fix c1 t1 = Some (c', t')"
      using "1.prems"(2) by (subst (asm) del_fix.simps) (auto split: option.splits)
    obtain f c0 where c: "c = f # c0" using True by (cases c) auto
    have xp: "xp = Some (faddr f)" using "1.prems"(3) c by simp
    have body: "fix_erase_body (ptr_of t) xp (state_of (plug c t) p n)
        = Some (ptr_of t1, xp1, state_of (plug c1 t1) p n)"
      using fix_erase_body_refines[of f c0 t xp1 c1 t1 p n] "1.prems"(1) st unfolding c xp by simp
    have "addrs (plug c1 t1) = addrs (plug c t)"
      using del_step_inorder[OF st] by (rule inorder_eq_addrs)
    then have d1: "distinct (addrs (plug c1 t1))" using "1.prems"(1) by simp
    have p1: "c1 \<noteq> [] \<longrightarrow> xp1 = cpar c1" using del_step_parent[OF st] by simp
    have "fix_erase_loop (ptr_of t1) xp1 (state_of (plug c1 t1) p n)
        = Some (ptr_of t', state_of (plug c' t') p n)"
      using True st d1 fx p1 by (intro "1.IH") auto
    then show ?thesis using True cond body by (subst fix_erase_loop.simps) simp
  qed
qed

lemma del_fix_inorder:
  "del_fix c t = Some (c', t') \<Longrightarrow> inorder (plug c' t') = inorder (plug c t)"
proof (induction c t rule: del_fix.induct)
  case (1 c t)
  show ?case
  proof (cases "c \<noteq> [] \<and> rcolor t = BLACK")
    case False
    then show ?thesis using "1.prems" by (auto simp: del_fix.simps split: if_splits)
  next
    case True
    then obtain xp1 c1 t1 where st: "del_step c t = Some (xp1, c1, t1)"
      and fx: "del_fix c1 t1 = Some (c', t')"
      using "1.prems" by (subst (asm) del_fix.simps) (auto split: option.splits)
    show ?thesis using "1.IH"[OF True st refl refl fx] del_step_inorder[OF st] by simp
  qed
qed

lemma set_black_focus:
  assumes "distinct (addrs (plug c t))"
  shows "(if ptr_of t \<noteq> None then set_color (ptr_of t) BLACK (state_of (plug c t) p n)
          else Some (state_of (plug c t) p n))
       = Some (state_of (plug c (blacken t)) p n)"
proof (cases t)
  case Lf
  then show ?thesis by simp
next
  case (Nd l a k v col r)
  then show ?thesis using assms paint_focus[of c l a k v col r BLACK p n]
    by (simp add: nodup_def)
qed

lemma fix_erase_refines:
  assumes "distinct (addrs (plug c t))" "del_fix c t = Some (c', t')"
  shows "fix_erase (ptr_of t) (cpar c) (state_of (plug c t) p n)
       = Some (state_of (plug c' (blacken t')) p n)"
proof -
  have "addrs (plug c' t') = addrs (plug c t)"
    using del_fix_inorder[OF assms(2)] by (rule inorder_eq_addrs)
  then have d: "distinct (addrs (plug c' t'))" using assms(1) by simp
  show ?thesis
    using fix_erase_loop_refines[OF assms, of "cpar c" p n] set_black_focus[OF d, of p n]
    by (cases t') (simp_all add: fix_erase_def)
qed

subsection \<open>The erase fixup restores the invariants\<close>

definition del_inv :: "('k, 'v) frame list \<Rightarrow> ('k, 'v) tree \<Rightarrow> bool" where
  "del_inv c t \<longleftrightarrow>
     balanced t \<and> rr_ok (blacken t) \<and> cbal c (bh t + 1) \<and> crr c BLACK \<and>
     croot c BLACK = BLACK"

lemma croot_nonempty: "c \<noteq> [] \<Longrightarrow> croot c col = croot c col'"
  by (cases c) auto

lemma croot_black: "croot c col = BLACK \<Longrightarrow> croot c BLACK = BLACK"
  by (cases c) auto

lemma rr_ok_blacken_black: "rcolor t = BLACK \<Longrightarrow> rr_ok (blacken t) = rr_ok t"
  by (cases t) auto

lemma bh_pos_nonleaf: "bh t = Suc n \<Longrightarrow> t \<noteq> Lf"
  by (cases t) auto

lemma del_rest_inv:
  assumes "balanced t" "rr_ok t" "rcolor t = BLACK"
    and "cbal (f # c) (bh t + 1)" "crr (f # c) BLACK" "croot (f # c) BLACK = BLACK"
    and "rcolor (fsib f) = BLACK"
  shows "\<exists>xp c' t'. del_rest f c t = Some (xp, c', t') \<and> del_inv c' t'"
proof -
  have nl: "fsib f \<noteq> Lf" using assms(4) by (auto dest: bh_pos_nonleaf[OF sym])
  then obtain wl wa kw vw wr where w: "fsib f = Nd wl wa kw vw BLACK wr"
    using assms(7) by (cases "fsib f") auto
  have cr: "croot c BLACK = BLACK" "crr c BLACK" "crr c (fcolor f)"
    using assms(5,6) by (auto intro: croot_black crr_weaken)
  show ?thesis
  proof (cases f)
    case (InL p kp vp cp w')
    show ?thesis using assms cr w InL
      by (cases wl rule: tree_cases3; cases wr rule: tree_cases3)
        (auto simp: del_inv_def balanced_plug rr_ok_plug rcolor_plug rr_ok_blacken)
  next
    case (InR w' p kp vp cp)
    show ?thesis using assms cr w InR
      by (cases wl rule: tree_cases3; cases wr rule: tree_cases3)
        (auto simp: del_inv_def balanced_plug rr_ok_plug rcolor_plug rr_ok_blacken)
  qed
qed

lemma del_step_inv:
  assumes "del_inv c t" "c \<noteq> []" "rcolor t = BLACK"
  shows "\<exists>xp c' t'. del_step c t = Some (xp, c', t') \<and> del_inv c' t'"
proof -
  obtain f c0 where c: "c = f # c0" using assms(2) by (cases c) auto
  have b: "balanced t" "rr_ok t" "cbal (f # c0) (bh t + 1)" "crr (f # c0) BLACK"
    "croot (f # c0) BLACK = BLACK"
    using assms(1,3) c by (simp_all add: del_inv_def rr_ok_blacken_black)
  have nl: "fsib f \<noteq> Lf" using b(3) by (auto dest: bh_pos_nonleaf[OF sym])
  show ?thesis
  proof (cases "rcolor (fsib f) = BLACK")
    case True
    then have "del_case1 f c0 = (f, c0)"
      by (cases f; cases "fsib f" rule: tree_cases3) auto
    then show ?thesis using del_rest_inv[OF b(1,2) assms(3) b(3-5) True] c by simp
  next
    case False
    then obtain wl wa kw vw wr where w: "fsib f = Nd wl wa kw vw RED wr"
      by (cases "fsib f" rule: tree_cases3) auto
    show ?thesis
    proof (cases f)
      case (InL p kp vp cp w')
      have c1: "del_case1 f c0 = (InL p kp vp RED wl, InL wa kw vw BLACK wr # c0)"
        using InL w by simp
      have "\<exists>xp c' t'. del_rest (InL p kp vp RED wl) (InL wa kw vw BLACK wr # c0) t
          = Some (xp, c', t') \<and> del_inv c' t'"
        using b assms(3) InL w
        by (intro del_rest_inv) (auto intro: crr_weaken croot_black)
      then show ?thesis using c c1 by simp
    next
      case (InR w' p kp vp cp)
      have c1: "del_case1 f c0 = (InR wr p kp vp RED, InR wl wa kw vw BLACK # c0)"
        using InR w by simp
      have "\<exists>xp c' t'. del_rest (InR wr p kp vp RED) (InR wl wa kw vw BLACK # c0) t
          = Some (xp, c', t') \<and> del_inv c' t'"
        using b assms(3) InR w
        by (intro del_rest_inv) (auto intro: crr_weaken croot_black)
      then show ?thesis using c c1 by simp
    qed
  qed
qed

lemma del_fix_inv:
  "del_inv c t \<Longrightarrow>
   \<exists>c' t'. del_fix c t = Some (c', t') \<and> del_inv c' t' \<and> \<not> (c' \<noteq> [] \<and> rcolor t' = BLACK)"
proof (induction c t rule: del_fix.induct)
  case (1 c t)
  show ?case
  proof (cases "c \<noteq> [] \<and> rcolor t = BLACK")
    case False
    then have "del_fix c t = Some (c, t)" by (auto simp: del_fix.simps)
    then show ?thesis using False "1.prems" by blast
  next
    case True
    then obtain xp1 c1 t1 where st: "del_step c t = Some (xp1, c1, t1)" and i1: "del_inv c1 t1"
      using del_step_inv[OF "1.prems"] by blast
    have "del_fix c t = del_fix c1 t1" using True st by (subst del_fix.simps) simp
    then show ?thesis using "1.IH"[OF True st refl refl i1] by simp
  qed
qed

lemma del_inv_final:
  assumes "del_inv c t" "\<not> (c \<noteq> [] \<and> rcolor t = BLACK)"
  shows "rbt (plug c (blacken t))"
proof (cases "c = []")
  case True
  then show ?thesis using assms(1) by (simp add: rbt_def del_inv_def)
next
  case False
  then have "rcolor t = RED" using assms(2) by simp
  then show ?thesis using assms(1)
    by (simp add: rbt_def del_inv_def balanced_plug rr_ok_plug rcolor_plug bh_blacken_red)
qed

section \<open>Unlinking the node to erase\<close>

text \<open>
  The node that \<^verbatim>\<open>erase\<close> unlinks, as a step on trees: the colour that is lost
  (\<^verbatim>\<open>y_original_color\<close>), and the position \<open>c'\<close> and subtree \<open>x\<close> where the fixup starts.
\<close>

fun unlink :: "('k, 'v) frame list \<Rightarrow> ('k, 'v) tree
    \<Rightarrow> (color \<times> ('k, 'v) frame list \<times> ('k, 'v) tree) option" where
  "unlink c Lf = None"
| "unlink c (Nd l z kz vz cz r) =
     (if l = Lf then Some (cz, c, r)
      else if r = Lf then Some (cz, c, l)
      else (case split_min r [] of
              (ci, Nd yl y ky vy ycol yr) \<Rightarrow> Some (ycol, ci @ InR l y ky vy cz # c, yr)
            | (ci, Lf) \<Rightarrow> None))"

lemma cpar_append: "c1 \<noteq> [] \<Longrightarrow> cpar (c1 @ c2) = cpar c1"
  by (cases c1) auto

lemma cbefore_append: "cbefore (c1 @ c2) = cbefore c2 @ cbefore c1"
  by (induction c1 rule: cbefore.induct) auto

lemma cafter_append: "cafter (c1 @ c2) = cafter c1 @ cafter c2"
  by (induction c1 rule: cafter.induct) auto

lemma split_min_nonleaf:
  assumes "r \<noteq> Lf"
  obtains ci y ky vy ycol yr where "split_min r [] = (ci, Nd Lf y ky vy ycol yr)"
proof -
  obtain ci t' where s: "split_min r [] = (ci, t')" by (cases "split_min r []") auto
  then obtain y ky vy ycol yr where "t' = Nd Lf y ky vy ycol yr"
    using split_min_shape[OF s assms] by blast
  then show ?thesis using s that by blast
qed

lemma erase_unlink_refines:
  assumes d: "distinct (addrs (plug c (Nd l z kz vz cz r)))"
    and u: "unlink c (Nd l z kz vz cz r) = Some (yc, c', x)"
  shows "\<exists>cell. erase_unlink (Some z) (state_of (plug c (Nd l z kz vz cz r)) p n)
       = Some (yc, ptr_of x, cpar c', state_g (plug c' x) z cell p n)"
proof (cases "l = Lf")
  case True
  then have e: "yc = cz" "c' = c" "x = r" using u by simp_all
  show ?thesis using unlink_no_left[of c z kz vz cz r p n] d unfolding True e by blast
next
  case lne: False
  show ?thesis
  proof (cases "r = Lf")
    case True
    then have e: "yc = cz" "c' = c" "x = l" using u lne by simp_all
    show ?thesis using unlink_no_right[of c l z kz vz cz p n] d lne unfolding True e by blast
  next
    case rne: False
    obtain ll la kl vl cl lr where l: "l = Nd ll la kl vl cl lr" using lne by (cases l) auto
    obtain rl ra kr vr cr rr where r: "r = Nd rl ra kr vr cr rr" using rne by (cases r) auto
    obtain ci y ky vy ycol yr where sm: "split_min r [] = (ci, Nd Lf y ky vy ycol yr)"
      using split_min_nonleaf[OF rne] by blast
    have e: "yc = ycol" "c' = ci @ InR l y ky vy cz # c" "x = yr"
      using u lne rne sm by simp_all
    show ?thesis
    proof (cases "rl = Lf")
      case True
      then have y: "ci = []" "ra = y" "kr = ky" "vr = vy" "cr = ycol" "rr = yr"
        using sm r by simp_all
      show ?thesis
        using unlink_adjacent[of c ll la kl vl cl lr z kz vz cz y ky vy ycol yr p n] d
        unfolding e l r True y by auto
    next
      case False
      obtain ci0 where s0: "split_min rl [] = (ci0, Nd Lf y ky vy ycol yr)"
        and ci: "ci = ci0 @ [InL ra kr vr cr rr]"
        using sm r False split_min_acc[of rl "[InL ra kr vr cr rr]"]
        by (cases "split_min rl []") auto
      have p1: "plug c' x = plug c (Nd l y ky vy cz (Nd (plug ci0 yr) ra kr vr cr rr))"
        unfolding e ci by (simp add: plug_append)
      have p2: "cpar c' = cpar (ci0 @ [InL ra kr vr cr rr])"
        unfolding e ci by (rule cpar_append) simp
      show ?thesis
        using unlink_deep[of c ll la kl vl cl lr z kz vz cz rl ra kr vr cr rr ci0 y ky vy ycol yr p n]
          d s0 False
        unfolding p1 p2 unfolding e l r by auto
    qed
  qed
qed

lemma unlink_inorder:
  assumes "unlink c (Nd l z kz vz cz r) = Some (yc, c', x)"
  shows "inorder (plug c' x) = cbefore c @ inorder l @ inorder r @ cafter c"
proof (cases "l = Lf \<or> r = Lf")
  case True
  then show ?thesis using assms by (auto simp: inorder_plug split: if_splits)
next
  case False
  then have rne: "r \<noteq> Lf" and lne: "l \<noteq> Lf" by auto
  obtain ci y ky vy ycol yr where sm: "split_min r [] = (ci, Nd Lf y ky vy ycol yr)"
    using split_min_nonleaf[OF rne] by blast
  have e: "c' = ci @ InR l y ky vy cz # c" "x = yr" using assms lne rne sm by simp_all
  have "plug ci (Nd Lf y ky vy ycol yr) = r" using split_min_plug[OF sm] by simp
  moreover have "cbefore ci = []" using split_min_before[OF sm] by simp
  ultimately have "inorder r = (y, ky, vy) # inorder yr @ cafter ci"
    using inorder_plug[of ci "Nd Lf y ky vy ycol yr"] by simp
  then show ?thesis unfolding e using \<open>cbefore ci = []\<close>
    by (simp add: inorder_plug cbefore_append cafter_append)
qed

subsection \<open>What unlinking leaves of the invariants\<close>

fun cblacks :: "('k, 'v) frame list \<Rightarrow> nat" where
  "cblacks [] = 0"
| "cblacks (f # c) = fblack f + cblacks c"

lemma cbal_append: "cbal (c1 @ c2) n \<longleftrightarrow> cbal c1 n \<and> cbal c2 (n + cblacks c1)"
  by (induction c1 arbitrary: n) (auto simp: add.assoc simp del: fblack.simps)

lemma crr_append: "crr (c1 @ c2) col \<longleftrightarrow> crr c1 col \<and> crr c2 (croot c1 col)"
  by (induction c1 arbitrary: col) auto

lemma croot_append: "croot (c1 @ c2) col = croot c2 (croot c1 col)"
  by (induction c1 arbitrary: col) auto

lemma bh_plug: "balanced (plug c t) \<Longrightarrow> bh (plug c t) = bh t + cblacks c"
proof (induction c arbitrary: t)
  case Nil
  then show ?case by simp
next
  case (Cons f c)
  have "balanced (fill f t)" using Cons.prems by (simp add: balanced_plug)
  then have "bh (fill f t) = bh t + fblack f" by (rule bh_fill)
  then show ?case using Cons.IH[of "fill f t"] Cons.prems by (simp del: fblack.simps)
qed

lemma crr_red: "crr c RED \<Longrightarrow> crr c col"
  by (cases c) auto

lemma croot_red_black: "croot c RED = BLACK \<Longrightarrow> croot c col = BLACK"
  by (cases c) auto

lemma unlink_simple_inv:
  assumes "rbt (plug c (Nd l z kz vz cz r))" "l = Lf \<or> r = Lf"
    and "unlink c (Nd l z kz vz cz r) = Some (yc, c', x)"
  shows "if yc = BLACK then del_inv c' x else rbt (plug c' x)"
proof -
  have e: "yc = cz" "c' = c" "x = (if l = Lf then r else l)"
    using assms(2,3) by (auto split: if_splits)
  have b: "balanced l" "balanced r" "bh l = bh r" "cbal c (bh l + (if cz = BLACK then 1 else 0))"
    "rr_ok l" "rr_ok r" "cz = RED \<longrightarrow> rcolor l = BLACK \<and> rcolor r = BLACK"
    "crr c cz" "croot c cz = BLACK"
    using assms(1) by (auto simp: rbt_def balanced_plug rr_ok_plug rcolor_plug)
  have h: "bh x = 0" "bh l = 0" using assms(2) b(3) unfolding e by auto
  show ?thesis
  proof (cases cz)
    case BLACK
    then show ?thesis using b h assms(2) unfolding e
      by (auto simp: del_inv_def rr_ok_blacken)
  next
    case RED
    then show ?thesis using b h assms(2) unfolding e
      by (auto simp: rbt_def balanced_plug rr_ok_plug rcolor_plug intro: crr_red croot_red_black)
  qed
qed

lemma unlink_two_inv:
  assumes "rbt (plug c (Nd l z kz vz cz r))" "l \<noteq> Lf" "r \<noteq> Lf"
    and "unlink c (Nd l z kz vz cz r) = Some (yc, c', x)"
  shows "if yc = BLACK then del_inv c' x else rbt (plug c' x)"
proof -
  obtain ci y ky vy ycol yr where sm: "split_min r [] = (ci, Nd Lf y ky vy ycol yr)"
    using split_min_nonleaf[OF assms(3)] by blast
  let ?Y = "Nd Lf y ky vy ycol yr"
  let ?f = "InR l y ky vy cz"
  have e: "yc = ycol" "c' = ci @ ?f # c" "x = yr" using assms(2-4) sm by simp_all
  have r: "r = plug ci ?Y" using split_min_plug[OF sm] by simp
  have b: "balanced l" "balanced r" "bh l = bh r" "cbal c (bh l + (if cz = BLACK then 1 else 0))"
    "rr_ok l" "rr_ok r" "cz = RED \<longrightarrow> rcolor l = BLACK \<and> rcolor r = BLACK"
    "crr c cz" "croot c cz = BLACK"
    using assms(1) by (auto simp: rbt_def balanced_plug rr_ok_plug rcolor_plug)
  have y: "balanced yr" "bh yr = 0" "cbal ci (bh ?Y)" "rr_ok yr" "crr ci ycol"
    "ycol = RED \<longrightarrow> rcolor yr = BLACK"
    using b(2,6) unfolding r by (auto simp: balanced_plug rr_ok_plug)
  have hr: "bh r = bh ?Y + cblacks ci" using b(2) unfolding r by (rule bh_plug)
  have rc: "rcolor r = croot ci ycol" unfolding r by (simp add: rcolor_plug)
  show ?thesis
  proof (cases ycol)
    case BLACK
    have "cbal (ci @ ?f # c) (bh yr + 1)"
      using b y hr BLACK by (simp add: cbal_append)
    moreover have "crr (ci @ ?f # c) BLACK"
      using b y rc BLACK by (simp add: crr_append)
    moreover have "croot (ci @ ?f # c) BLACK = BLACK"
      using b by (simp add: croot_append)
    ultimately show ?thesis using y BLACK unfolding e
      by (simp add: del_inv_def rr_ok_blacken)
  next
    case RED
    have "cbal (ci @ ?f # c) (bh yr)"
      using b y hr RED by (simp add: cbal_append)
    moreover have "crr (ci @ ?f # c) (rcolor yr)"
    proof (cases ci)
      case Nil
      then show ?thesis using b y rc RED by auto
    next
      case (Cons g ci')
      then have "croot ci (rcolor yr) = croot ci ycol" by (intro croot_nonempty) simp
      moreover have "crr ci (rcolor yr)" using y(5) RED by (auto intro: crr_red)
      ultimately show ?thesis using b rc by (simp add: crr_append)
    qed
    moreover have "croot (ci @ ?f # c) (rcolor yr) = BLACK"
      using b by (simp add: croot_append)
    ultimately show ?thesis using y RED unfolding e
      by (simp add: rbt_def balanced_plug rr_ok_plug rcolor_plug)
  qed
qed

lemma unlink_inv:
  assumes "rbt (plug c (Nd l z kz vz cz r))" "unlink c (Nd l z kz vz cz r) = Some (yc, c', x)"
  shows "if yc = BLACK then del_inv c' x else rbt (plug c' x)"
  using unlink_simple_inv[OF assms(1) _ assms(2)] unlink_two_inv[OF assms(1) _ _ assms(2)]
  by blast

lemma unlink_total: "\<exists>yc c' x. unlink c (Nd l z kz vz cz r) = Some (yc, c', x)"
proof (cases "l = Lf \<or> r = Lf")
  case True
  then show ?thesis by auto
next
  case False
  then obtain ci y ky vy ycol yr where "split_min r [] = (ci, Nd Lf y ky vy ycol yr)"
    using split_min_nonleaf[of r] by blast
  then show ?thesis using False by simp
qed

section \<open>\<^verbatim>\<open>erase\<close> on a well-formed state\<close>

lemma erase_absent:
  assumes "distinct (addrs t)" "descend k [] t = (c, Lf)"
  shows "erase k (state_of t p n) = Some (0, state_of t p n)"
  using erase_loop_refines[of "[]" t k p n] assms by (simp add: erase_def)

lemma inorder_plug_blacken [simp]: "inorder (plug c (blacken t)) = inorder (plug c t)"
  by (simp add: inorder_plug)

lemma state_of_size_update [simp]: "(state_of t p n)\<lparr>size_m := m\<rparr> = state_of t p m"
  by (simp add: state_of_def)

lemma erase_present_state:
  assumes d: "distinct (addrs t)" and rb: "rbt t"
    and ds: "descend k [] t = (c, Nd l z kz vz cz r)"
  shows "\<exists>t'. erase k (state_of t p n) = Some (1, state_of t' (pool_recycle z p) (n - 1)) \<and>
      rbt t' \<and> inorder t' = cbefore c @ inorder l @ inorder r @ cafter c"
proof -
  let ?Z = "Nd l z kz vz cz r"
  let ?rest = "cbefore c @ inorder l @ inorder r @ cafter c"
  have t: "t = plug c ?Z" using plug_descend[OF ds] by simp
  have it: "inorder t = cbefore c @ inorder l @ (z, kz, vz) # inorder r @ cafter c"
    unfolding t by (simp add: inorder_plug)
  have dz: "distinct (addrs (plug c ?Z))" using d t by simp
  have rz: "rbt (plug c ?Z)" using rb t by simp
  obtain yc c' x where u: "unlink c ?Z = Some (yc, c', x)" using unlink_total[of c l z kz vz cz r] by blast
  obtain cell where eu: "erase_unlink (Some z) (state_of t p n)
      = Some (yc, ptr_of x, cpar c', state_g (plug c' x) z cell p n)"
    using erase_unlink_refines[OF dz u, of p n] unfolding t by blast
  have ix: "inorder (plug c' x) = ?rest" using u by (rule unlink_inorder)
  have "addrs t = map fst (cbefore c) @ addrs l @ z # addrs r @ map fst (cafter c)"
    unfolding addrs_inorder it by (simp add: addrs_inorder)
  moreover have ax: "addrs (plug c' x) = map fst (cbefore c) @ addrs l @ addrs r @ map fst (cafter c)"
    unfolding addrs_inorder ix by (simp add: addrs_inorder)
  ultimately have dx: "distinct (addrs (plug c' x))" and nz: "z \<notin> set (addrs (plug c' x))"
    using d by auto
  have rc: "recycle (Some z) (state_g (plug c' x) z cell p n)
      = Some (state_of (plug c' x) (pool_recycle z p) n)"
    using nz by (rule recycle_state_g)
  have lp: "erase_loop k (root (state_of t p n)) (state_of t p n) = Some (Some z)"
    using erase_loop_refines[of "[]" t k p n] d ds by simp
  let ?s1 = "state_of (plug c' x) (pool_recycle z p) (n - 1)"
  note iv = unlink_inv[OF rz u]
  show ?thesis
  proof (cases yc)
    case RED
    have "erase k (state_of t p n) = Some (1, ?s1)"
      using lp eu rc RED by (simp add: erase_def)
    moreover have "rbt (plug c' x)" using iv RED by simp
    ultimately show ?thesis using ix by blast
  next
    case BLACK
    have di: "del_inv c' x" using iv BLACK by simp
    obtain c2 x2 where fx: "del_fix c' x = Some (c2, x2)" and i2: "del_inv c2 x2"
      and ex: "\<not> (c2 \<noteq> [] \<and> rcolor x2 = BLACK)"
      using del_fix_inv[OF di] by blast
    have fe: "fix_erase (ptr_of x) (cpar c') ?s1
        = Some (state_of (plug c2 (blacken x2)) (pool_recycle z p) (n - 1))"
      using dx fx by (rule fix_erase_refines)
    have "erase k (state_of t p n)
        = Some (1, state_of (plug c2 (blacken x2)) (pool_recycle z p) (n - 1))"
      using lp eu rc BLACK fe by (simp add: erase_def)
    moreover have "rbt (plug c2 (blacken x2))" using i2 ex by (rule del_inv_final)
    moreover have "inorder (plug c2 (blacken x2)) = ?rest"
      using del_fix_inorder[OF fx] ix by simp
    ultimately show ?thesis by blast
  qed
qed

lemma sorted_remove_middle:
  "sorted_wrt (<) (xs @ x # ys) \<Longrightarrow> sorted_wrt (<) (xs @ ys)"
  by (auto simp: sorted_wrt_append)

lemma erase_inv_absent:
  assumes "map_inv s t" "k \<notin> set (keys t)"
  shows "erase k s = Some (0, s)"
proof (cases k t rule: descend_cases)
  case (present c l a v col r)
  then show ?thesis using descend_Nd_present(3)[OF present] assms(2) by simp
next
  case (absent c)
  have d: "distinct (addrs t)" using assms(1) by (simp add: map_inv_def holds_def)
  have "erase k (state_of t (pool s) (size_m s)) = Some (0, state_of t (pool s) (size_m s))"
    using d absent by (rule erase_absent)
  then show ?thesis by (simp add: map_inv_state_of[OF assms(1), symmetric])
qed

lemma erase_inv_present:
  assumes "map_inv s t" "k \<in> set (keys t)"
  shows "\<exists>xs z v ys t'. inorder t = xs @ (z, k, v) # ys \<and> inorder t' = xs @ ys \<and>
      erase k s = Some (1, state_of t' (pool_recycle z (pool s)) (size_m s - 1)) \<and>
      map_inv (state_of t' (pool_recycle z (pool s)) (size_m s - 1)) t'"
proof (cases k t rule: descend_cases)
  case (absent c)
  then show ?thesis using descend_Lf_absent(1)[of t k c] assms by (simp add: map_inv_def)
next
  case (present c l z v col r)
  have d: "distinct (addrs t)" and rb: "rbt t" and bs: "bst t"
    and sz: "size_m s = length (addrs t)" and po: "pool_ok (pool s) (set (addrs t))"
    using assms(1) by (simp_all add: map_inv_def holds_def)
  let ?xs = "cbefore c @ inorder l"
  let ?ys = "inorder r @ cafter c"
  have t: "t = plug c (Nd l z k v col r)" using plug_descend[OF present] by simp
  have it: "inorder t = ?xs @ (z, k, v) # ?ys" unfolding t by (simp add: inorder_plug)
  obtain t' where e: "erase k (state_of t (pool s) (size_m s))
        = Some (1, state_of t' (pool_recycle z (pool s)) (size_m s - 1))"
    and rb': "rbt t'" and it': "inorder t' = ?xs @ ?ys"
    using erase_present_state[OF d rb present, of "pool s" "size_m s"] by auto
  have es: "erase k s = Some (1, state_of t' (pool_recycle z (pool s)) (size_m s - 1))"
    using e by (simp add: map_inv_state_of[OF assms(1), symmetric])
  have a: "addrs t = map fst ?xs @ z # map fst ?ys" unfolding addrs_inorder it by simp
  have a': "addrs t' = map fst ?xs @ map fst ?ys" unfolding addrs_inorder it' by simp
  have d': "distinct (addrs t')" using d unfolding a a' by auto
  have sa: "set (addrs t') = set (addrs t) - {z}" using d unfolding a a' by auto
  have "z \<in> set (addrs t)" unfolding a by simp
  then have p': "pool_ok (pool_recycle z (pool s)) (set (addrs t'))"
    using pool_recycle_ok[OF po] sa by simp
  have n': "size_m s - 1 = length (addrs t')" using sz unfolding a a' by simp
  have "keys t = map (\<lambda>e. fst (snd e)) ?xs @ k # map (\<lambda>e. fst (snd e)) ?ys"
    unfolding keys_def it by simp
  moreover have "keys t' = map (\<lambda>e. fst (snd e)) ?xs @ map (\<lambda>e. fst (snd e)) ?ys"
    unfolding keys_def it' by simp
  ultimately have b': "bst t'" using bs sorted_remove_middle unfolding bst_def by metis
  have "map_inv (state_of t' (pool_recycle z (pool s)) (size_m s - 1)) t'"
    using d' rb' b' n' p' by (rule map_inv_state_ofI)
  then show ?thesis using it it' es by blast
qed

section \<open>Every reachable state is well-formed\<close>

lemma contains_inv:
  assumes "map_inv s t"
  shows "contains k s = Some (k \<in> set (keys t))"
proof -
  have d: "distinct (addrs (plug [] t))" and b: "bst t"
    using assms by (simp_all add: map_inv_def holds_def)
  have "contains k (state_of t (pool s) (size_m s)) = Some (lookup t k \<noteq> None)"
    using contains_loop_refines[OF d, of k "pool s" "size_m s"] by (simp add: contains_def)
  then have "contains k s = Some (lookup t k \<noteq> None)"
    by (simp add: map_inv_state_of[OF assms, symmetric])
  then show ?thesis using lookup_None_iff[OF b, of k] by simp
qed

lemma upsert_inv:
  assumes "map_inv s t"
  shows "\<exists>a v s' t'. operator_index k s = Some (Some a, s') \<and> map_inv s' t' \<and>
      (a, k, v) \<in> set (inorder t') \<and>
      size_m s' = size_m s + (if k \<in> set (keys t) then 0 else 1)"
proof (cases "k \<in> set (keys t)")
  case True
  then show ?thesis using upsert_inv_present[OF assms True] assms by auto
next
  case False
  obtain c a P' t' where u:
    "operator_index k s = Some (Some a, state_of t' P' (size_m s + 1))"
    "map_inv (state_of t' P' (size_m s + 1)) t'"
    "inorder t' = inorder (plug c (Nd Lf a k default RED Lf))"
    using upsert_inv_absent[OF assms False] by blast
  have "(a, k, default) \<in> set (inorder t')" unfolding u(3) by (simp add: inorder_plug)
  then show ?thesis using u(1,2) False by force
qed

lemma erase_inv:
  assumes "map_inv s t"
  shows "\<exists>m s' t'. erase k s = Some (m, s') \<and> map_inv s' t' \<and>
      m = (if k \<in> set (keys t) then 1 else 0) \<and> size_m s' + m = size_m s"
proof (cases "k \<in> set (keys t)")
  case False
  then show ?thesis using erase_inv_absent[OF assms False] assms by auto
next
  case True
  obtain xs z v ys t' where e: "inorder t = xs @ (z, k, v) # ys"
    "erase k s = Some (1, state_of t' (pool_recycle z (pool s)) (size_m s - 1))"
    "map_inv (state_of t' (pool_recycle z (pool s)) (size_m s - 1)) t'"
    using erase_inv_present[OF assms True] by blast
  have "size_m s = length (inorder t)" using assms by (simp add: map_inv_def addrs_inorder)
  then have "0 < size_m s" using e(1) by simp
  then show ?thesis using e(2,3) True by force
qed

lemma apply_call_inv:
  assumes "map_inv s t"
  shows "\<exists>s' t'. apply_call c s = Some s' \<and> map_inv s' t'"
proof (cases c)
  case (Upsert k)
  then show ?thesis using upsert_inv[OF assms, of k] by auto
next
  case (Assign k v)
  obtain a v0 s1 t1 where u: "operator_index k s = Some (Some a, s1)" "map_inv s1 t1"
    "(a, k, v0) \<in> set (inorder t1)"
    using upsert_inv[OF assms, of k] by blast
  obtain t2 where "set_val (Some a) v s1 = Some (state_of t2 (pool s1) (size_m s1))"
    "map_inv (state_of t2 (pool s1) (size_m s1)) t2"
    using assign_inv[OF u(2,3), of v] by blast
  then show ?thesis using u(1) Assign by auto
next
  case (Erase k)
  then show ?thesis using erase_inv[OF assms, of k] by auto
qed

lemma run_inv: "map_inv s t \<Longrightarrow> \<exists>s' t'. run cs s = Some s' \<and> map_inv s' t'"
proof (induction cs arbitrary: s t)
  case Nil
  then show ?case by auto
next
  case (Cons c cs)
  obtain s1 t1 where a: "apply_call c s = Some s1" "map_inv s1 t1"
    using apply_call_inv[OF Cons.prems, of c] by blast
  show ?case using Cons.IH[OF a(2)] a(1) by simp
qed

lemma reachable_inv: "\<exists>s t. run cs (empty_map cap) = Some s \<and> map_inv s t"
  using run_inv[OF map_inv_empty] by blast

section \<open>The red-black invariants in the words of the specification\<close>

text \<open>The number of black nodes on each path from the root to a leaf, left to right.\<close>

fun black_counts :: "('k, 'v) tree \<Rightarrow> nat list" where
  "black_counts Lf = [0]"
| "black_counts (Nd l a k v c r) =
     map (\<lambda>n. n + (if c = BLACK then 1 else 0)) (black_counts l @ black_counts r)"

definition equal_black_paths :: "('k, 'v) tree \<Rightarrow> bool" where
  "equal_black_paths t \<longleftrightarrow> (\<forall>m \<in> set (black_counts t). \<forall>n \<in> set (black_counts t). m = n)"

text \<open>Every red node is the child of a black node; so the root is not red.\<close>

definition red_has_black_parent :: "('k, 'v) tree \<Rightarrow> bool" where
  "red_has_black_parent t \<longleftrightarrow>
     (\<forall>c l a k v r. t = plug c (Nd l a k v RED r) \<longrightarrow> (\<exists>f c'. c = f # c' \<and> fcolor f = BLACK))"

definition root_black :: "('k, 'v) tree \<Rightarrow> bool" where
  "root_black t \<longleftrightarrow> (case t of Lf \<Rightarrow> True | Nd l a k v c r \<Rightarrow> c = BLACK)"

lemma balanced_black_counts: "balanced t \<Longrightarrow> \<forall>n \<in> set (black_counts t). n = bh t"
  by (induction t) auto

lemma rbt_equal_black_paths:
  assumes "rbt t"
  shows "equal_black_paths t"
proof -
  have "balanced t" using assms by (simp add: rbt_def)
  then have b: "\<forall>n \<in> set (black_counts t). n = bh t" by (rule balanced_black_counts)
  show ?thesis unfolding equal_black_paths_def
  proof (intro ballI)
    fix m n
    assume "m \<in> set (black_counts t)" "n \<in> set (black_counts t)"
    then have "m = bh t" "n = bh t" using b by blast+
    then show "m = n" by simp
  qed
qed

lemma rbt_red_has_black_parent:
  assumes "rbt t"
  shows "red_has_black_parent t"
  unfolding red_has_black_parent_def
proof (intro allI impI)
  fix c l a k v r
  assume t: "t = plug c (Nd l a k v RED r)"
  have "crr c RED" "croot c RED = BLACK"
    using assms unfolding t by (simp_all add: rbt_def rr_ok_plug rcolor_plug)
  then show "\<exists>f c'. c = f # c' \<and> fcolor f = BLACK" by (cases c) auto
qed

lemma rbt_root_black: "rbt t \<Longrightarrow> root_black t"
  by (cases t) (simp_all add: rbt_def root_black_def)

text \<open>
  Claim C1. After every sequence of \<^verbatim>\<open>operator[]\<close>, assignment and \<^verbatim>\<open>erase\<close> calls on an
  empty map the run has returned, and the memory holds a tree in which every red node has
  a black parent, every path from the root to a leaf has the same number of black nodes,
  and the root is black or the tree is empty. A sequence contains all its prefixes, so
  this holds after each call.
\<close>

theorem red_black_invariants_reachable:
  "\<exists>s t. run cs (empty_map cap) = Some s \<and> holds s t \<and>
     red_has_black_parent t \<and> equal_black_paths t \<and> root_black t"
proof -
  obtain s t where "run cs (empty_map cap) = Some s" "map_inv s t"
    using reachable_inv by blast
  then show ?thesis
    using rbt_red_has_black_parent[of t] rbt_equal_black_paths[of t] rbt_root_black[of t]
    by (auto simp: map_inv_def)
qed

theorem red_black_invariants_reachable_witness:
  "map_option size_of
     (run [Upsert (1::int), Upsert 2, Upsert 3, Erase 2] (empty_map 4 :: (int, int) PooledMap))
     = Some 2 \<and>
   (\<exists>s t. run [Upsert (1::int), Upsert 2, Upsert 3, Erase 2] (empty_map 4 :: (int, int) PooledMap)
       = Some s \<and> holds s t \<and> red_has_black_parent t \<and> equal_black_paths t \<and> root_black t)"
proof -
  have "map_option size_of
     (run [Upsert (1::int), Upsert 2, Upsert 3, Erase 2] (empty_map 4 :: (int, int) PooledMap))
     = Some 2"
    by code_simp
  then show ?thesis
    using red_black_invariants_reachable[of "[Upsert (1::int), Upsert 2, Upsert 3, Erase 2]" 4]
    by blast
qed

section \<open>Claims about \<^verbatim>\<open>erase\<close>\<close>

lemma filter_remove_key:
  assumes "distinct (map fst (xs @ (k, v) # ys))"
  shows "filter (\<lambda>e. fst e \<noteq> k) (xs @ (k, v) # ys) = xs @ ys"
proof -
  have "\<forall>e \<in> set xs. fst e \<noteq> k" "\<forall>e \<in> set ys. fst e \<noteq> k" using assms by force+
  then have "filter (\<lambda>e. fst e \<noteq> k) xs = xs" "filter (\<lambda>e. fst e \<noteq> k) ys = ys"
    by (simp_all add: filter_id_conv)
  then show ?thesis by simp
qed

text \<open>
  Claim C4. On every well-formed map state: if \<open>k\<close> is present, \<^verbatim>\<open>erase(k)\<close> returns 1,
  the entries afterwards are the entries before without the one for \<open>k\<close> (one entry
  fewer), \<^verbatim>\<open>size()\<close> is one smaller and \<^verbatim>\<open>contains(k)\<close> is false; if \<open>k\<close> is absent, it
  returns 0 and the state is unchanged.
\<close>

theorem erase_behaviour:
  assumes "map_inv s t"
  shows "if k \<in> set (keys t)
         then \<exists>s' t'. erase k s = Some (1, s') \<and> map_inv s' t' \<and>
                entries t' = filter (\<lambda>e. fst e \<noteq> k) (entries t) \<and>
                length (entries t') + 1 = length (entries t) \<and>
                size_of s' + 1 = size_of s \<and> contains k s' = Some False
         else erase k s = Some (0, s)"
proof (cases "k \<in> set (keys t)")
  case False
  then show ?thesis using erase_inv_absent[OF assms False] by simp
next
  case True
  obtain xs z v ys t' where e: "inorder t = xs @ (z, k, v) # ys" "inorder t' = xs @ ys"
    "erase k s = Some (1, state_of t' (pool_recycle z (pool s)) (size_m s - 1))"
    "map_inv (state_of t' (pool_recycle z (pool s)) (size_m s - 1)) t'"
    using erase_inv_present[OF assms True] by blast
  let ?s = "state_of t' (pool_recycle z (pool s)) (size_m s - 1)"
  have bs: "bst t" and sz: "size_m s = length (addrs t)"
    using assms by (simp_all add: map_inv_def)
  have en: "entries t = map snd xs @ (k, v) # map snd ys" "entries t' = map snd xs @ map snd ys"
    using e(1,2) by (simp_all add: entries_def)
  have "distinct (map fst (entries t))" using bs by (simp add: bst_distinct_keys)
  then have f: "entries t' = filter (\<lambda>e. fst e \<noteq> k) (entries t)"
    unfolding en by (simp only: filter_remove_key)
  have "k \<notin> set (keys t')"
  proof -
    have "set (keys t') = fst ` set (entries t')" by (metis map_fst_entries set_map)
    then show ?thesis unfolding f by auto
  qed
  then have c: "contains k ?s = Some False" using contains_inv[OF e(4), of k] by simp
  have "size_m s = length xs + 1 + length ys" using sz e(1) by (simp add: addrs_inorder)
  then have n: "size_of ?s + 1 = size_of s" by (simp add: size_of_def)
  have l: "length (entries t') + 1 = length (entries t)" unfolding en by simp
  show ?thesis using True e(3,4) f l n c by auto
qed

theorem erase_behaviour_witness:
  "map_inv (state_of (Nd (Nd Lf 1 (1::int) (7::int) RED Lf) 0 2 0 BLACK Lf)
             \<lparr>free_list = [], seg_count = 1, slots_used = 2, segment_capacity = 4\<rparr> 2)
           (Nd (Nd Lf 1 1 7 RED Lf) 0 2 0 BLACK Lf) \<and>
   (\<exists>s' t'. erase 2 (state_of (Nd (Nd Lf 1 (1::int) (7::int) RED Lf) 0 2 0 BLACK Lf)
             \<lparr>free_list = [], seg_count = 1, slots_used = 2, segment_capacity = 4\<rparr> 2)
        = Some (1, s') \<and> map_inv s' t' \<and> entries t' = [(1, 7)] \<and> size_of s' = 1 \<and>
        contains 2 s' = Some False) \<and>
   erase 5 (state_of (Nd (Nd Lf 1 (1::int) (7::int) RED Lf) 0 2 0 BLACK Lf)
             \<lparr>free_list = [], seg_count = 1, slots_used = 2, segment_capacity = 4\<rparr> 2)
     = Some (0, state_of (Nd (Nd Lf 1 (1::int) (7::int) RED Lf) 0 2 0 BLACK Lf)
             \<lparr>free_list = [], seg_count = 1, slots_used = 2, segment_capacity = 4\<rparr> 2)"
proof -
  let ?t = "Nd (Nd Lf 1 (1::int) (7::int) RED Lf) 0 2 0 BLACK Lf"
  let ?s = "state_of ?t \<lparr>free_list = [], seg_count = 1, slots_used = 2, segment_capacity = 4\<rparr> 2"
  have i: "map_inv ?s ?t"
    by (rule map_inv_state_ofI) (simp_all add: rbt_def bst_def pool_ok_def)
  show ?thesis
    using i erase_behaviour[OF i, of 2] erase_behaviour[OF i, of 5]
    by (auto simp: size_of_def)
qed

section \<open>Traversal\<close>

text \<open>The in-order walk as a function on trees: the visitor may replace each value.\<close>

fun visit :: "('k, 'v, 'a) visitor \<Rightarrow> ('k, 'v) tree \<Rightarrow> 'a \<Rightarrow> ('k, 'v) tree \<times> 'a" where
  "visit func Lf acc = (Lf, acc)"
| "visit func (Nd l a k v c r) acc =
     (case visit func l acc of (l', acc1) \<Rightarrow>
      case func k v acc1 of (v', acc2) \<Rightarrow>
      case visit func r acc2 of (r', acc3) \<Rightarrow> (Nd l' a k v' c r', acc3))"

lemma addrs_visit [simp]: "addrs (fst (visit func t acc)) = addrs t"
proof (induction t arbitrary: acc)
  case Lf
  show ?case by simp
next
  case (Nd l a k v c r)
  obtain l' acc1 where vl: "visit func l acc = (l', acc1)" by (cases "visit func l acc") auto
  obtain v' acc2 where fv: "func k v acc1 = (v', acc2)" by (cases "func k v acc1") auto
  obtain r' acc3 where vr: "visit func r acc2 = (r', acc3)" by (cases "visit func r acc2") auto
  have "addrs l' = addrs l" using Nd.IH(1)[of acc] vl by simp
  moreover have "addrs r' = addrs r" using Nd.IH(2)[of acc2] vr by simp
  ultimately show ?case using vl fv vr by simp
qed

lemma ptr_of_visit [simp]: "ptr_of (fst (visit func t acc)) = ptr_of t"
  by (cases t) (auto split: prod.splits)

lemma inorder_traverse_refines:
  "distinct (addrs (plug c t)) \<Longrightarrow>
   inorder_traverse (ptr_of t) func acc (state_of (plug c t) p n)
     = Some (snd (visit func t acc), state_of (plug c (fst (visit func t acc))) p n)"
proof (induction t arbitrary: c acc)
  case Lf
  show ?case by (subst inorder_traverse.simps) simp
next
  case (Nd l a k v col r)
  obtain l' acc1 where vl: "visit func l acc = (l', acc1)" by (cases "visit func l acc") auto
  obtain v' acc2 where fv: "func k v acc1 = (v', acc2)" by (cases "func k v acc1") auto
  obtain r' acc3 where vr: "visit func r acc2 = (r', acc3)" by (cases "visit func r acc2") auto
  have al: "addrs l' = addrs l" "ptr_of l' = ptr_of l"
    using addrs_visit[of func l acc] ptr_of_visit[of func l acc] vl by simp_all
  have ar: "addrs r' = addrs r" "ptr_of r' = ptr_of r"
    using addrs_visit[of func r acc2] ptr_of_visit[of func r acc2] vr by simp_all
  let ?s0 = "state_of (plug c (Nd l a k v col r)) p n"
  let ?s1 = "state_of (plug c (Nd l' a k v col r)) p n"
  let ?s2 = "state_of (plug c (Nd l' a k v' col r)) p n"
  let ?s3 = "state_of (plug c (Nd l' a k v' col r')) p n"
  have d0: "distinct (addrs (plug c (Nd l a k v col r)))" using Nd.prems .
  have d1: "distinct (addrs (plug c (Nd l' a k v col r)))" using Nd.prems al by simp
  have d2: "distinct (addrs (plug c (Nd l' a k v' col r)))" using Nd.prems al by simp
  have l0: "load left (Some a) ?s0 = Some (ptr_of l)" using d0 by (simp add: load_state_of)
  have t1: "inorder_traverse (ptr_of l) func acc ?s0 = Some (acc1, ?s1)"
    using Nd.IH(1)[of "InL a k v col r # c" acc] d0 vl by simp
  have l1: "load key (Some a) ?s1 = Some k" "load val (Some a) ?s1 = Some v"
    using d1 by (simp_all add: load_state_of)
  have w: "set_val (Some a) v' ?s1 = Some ?s2" using d1 by (rule set_val_focus)
  have l2: "load right (Some a) ?s2 = Some (ptr_of r)" using d2 by (simp add: load_state_of)
  have t2: "inorder_traverse (ptr_of r) func acc2 ?s2 = Some (acc3, ?s3)"
    using Nd.IH(2)[of "InR l' a k v' col # c" acc2] d2 vr by simp
  show ?case using l0 t1 l1 fv w l2 t2 vl vr
    by (subst inorder_traverse.simps) simp
qed

lemma visit_record_visitor: "visit record_visitor t acc = (t, acc @ entries t)"
  by (induction t arbitrary: acc) (simp_all add: record_visitor_def)

lemma for_each_record:
  assumes "map_inv s t"
  shows "for_each record_visitor [] s = Some (entries t, s)"
proof -
  have d: "distinct (addrs (plug [] t))" using assms by (simp add: map_inv_def holds_def)
  have "for_each record_visitor [] (state_of t (pool s) (size_m s))
      = Some (entries t, state_of t (pool s) (size_m s))"
    using inorder_traverse_refines[OF d, of record_visitor "[]" "pool s" "size_m s"]
    by (simp add: for_each_def visit_record_visitor)
  then show ?thesis by (simp add: map_inv_state_of[OF assms, symmetric])
qed

text \<open>Any visitor, made to note the keys it is shown.\<close>

definition traced :: "('k, 'v, 'a) visitor \<Rightarrow> ('k, 'v, 'a \<times> 'k list) visitor" where
  "traced func k v st = (case func k v (fst st) of (v', acc') \<Rightarrow> (v', (acc', snd st @ [k])))"

lemma traced_apply:
  "traced func k v (acc, ks) = (case func k v acc of (v', acc') \<Rightarrow> (v', (acc', ks @ [k])))"
  by (simp add: traced_def)

lemma visit_traced: "snd (snd (visit (traced func) t (acc, ks))) = ks @ keys t"
proof (induction t arbitrary: acc ks)
  case Lf
  show ?case by simp
next
  case (Nd l a k v c r)
  obtain l' acc1 ks1 where vl: "visit (traced func) l (acc, ks) = (l', acc1, ks1)"
    by (cases "visit (traced func) l (acc, ks)") auto
  obtain v' acc2 where fv: "func k v acc1 = (v', acc2)" by (cases "func k v acc1") auto
  obtain r' acc3 ks3 where vr: "visit (traced func) r (acc2, ks1 @ [k]) = (r', acc3, ks3)"
    by (cases "visit (traced func) r (acc2, ks1 @ [k])") auto
  have "ks1 = ks @ keys l" using Nd.IH(1)[of acc ks] vl by simp
  moreover have "ks3 = (ks1 @ [k]) @ keys r" using Nd.IH(2)[of acc2 "ks1 @ [k]"] vr by simp
  ultimately show ?case using vl fv vr by (simp add: traced_apply)
qed

lemma for_each_traced:
  assumes "map_inv s t"
  shows "\<exists>acc' s'. for_each (traced func) (acc, []) s = Some ((acc', keys t), s')"
proof -
  have d: "distinct (addrs (plug [] t))" using assms by (simp add: map_inv_def holds_def)
  obtain t' acc' ks where v: "visit (traced func) t (acc, []) = (t', acc', ks)"
    by (cases "visit (traced func) t (acc, [])") auto
  have "ks = keys t" using visit_traced[of func t acc "[]"] v by simp
  then have "for_each (traced func) (acc, []) (state_of t (pool s) (size_m s))
      = Some ((acc', keys t), state_of t' (pool s) (size_m s))"
    using inorder_traverse_refines[OF d, of "traced func" "(acc, [])" "pool s" "size_m s"] v
    by (simp add: for_each_def)
  then show ?thesis by (simp add: map_inv_state_of[OF assms, symmetric])
qed

text \<open>
  Claim C2. In every state reached from the empty map, \<^verbatim>\<open>for_each\<close> with the recording
  visitor returns and has been shown exactly the stored entries, one call for each, and
  the keys it was shown are strictly increasing. Any other visitor, whatever it does to
  the values, is shown the same keys in the same order.
\<close>

theorem for_each_strictly_increasing:
  "\<exists>s t. run cs (empty_map cap) = Some s \<and> holds s t \<and>
     for_each record_visitor [] s = Some (entries t, s) \<and>
     (\<exists>acc' s'. for_each (traced func) (acc, []) s = Some ((acc', map fst (entries t)), s')) \<and>
     length (entries t) = size_of s \<and> sorted_wrt (<) (map fst (entries t))"
proof -
  obtain s t where r: "run cs (empty_map cap) = Some s" and i: "map_inv s t"
    using reachable_inv by blast
  have "length (entries t) = size_of s"
    using i by (simp add: map_inv_def size_of_def entries_def addrs_inorder)
  moreover have "sorted_wrt (<) (map fst (entries t))" using i by (simp add: map_inv_def bst_def)
  ultimately show ?thesis using r i for_each_record[OF i] for_each_traced[OF i, of func acc]
    by (auto simp: map_inv_def)
qed

theorem for_each_strictly_increasing_witness:
  "map_option fst (Option.bind
       (run [Assign (3::int) (30::int), Assign 1 10, Assign 2 20, Erase 3, Upsert 5] (empty_map 4))
       (for_each record_visitor []))
     = Some [(1, 10), (2, 20), (5, 0)] \<and>
   (\<exists>s t. run [Assign (3::int) (30::int), Assign 1 10, Assign 2 20, Erase 3, Upsert 5] (empty_map 4)
       = Some s \<and> holds s t \<and> for_each record_visitor [] s = Some (entries t, s) \<and>
       (\<exists>acc' s'. for_each (traced record_visitor) ([], []) s
          = Some ((acc', map fst (entries t)), s')) \<and>
       length (entries t) = size_of s \<and> sorted_wrt (<) (map fst (entries t)))"
proof -
  have "map_option fst (Option.bind
       (run [Assign (3::int) (30::int), Assign 1 10, Assign 2 20, Erase 3, Upsert 5] (empty_map 4))
       (for_each record_visitor []))
     = Some [(1, 10), (2, 20), (5, 0)]"
    by code_simp
  then show ?thesis
    using for_each_strictly_increasing[of
        "[Assign (3::int) (30::int), Assign 1 10, Assign 2 20, Erase 3, Upsert 5]" 4
        record_visitor "[]"]
    by blast
qed

section \<open>Counting\<close>

text \<open>The keys that a sequence of calls passes to \<^verbatim>\<open>operator[]\<close>.\<close>

fun upserted_keys :: "('k, 'v) call list \<Rightarrow> 'k list" where
  "upserted_keys [] = []"
| "upserted_keys (Upsert k # cs) = k # upserted_keys cs"
| "upserted_keys (Assign k v # cs) = k # upserted_keys cs"
| "upserted_keys (Erase k # cs) = upserted_keys cs"

text \<open>
  A run with two counters: the \<^verbatim>\<open>operator[]\<close> calls whose key \<^verbatim>\<open>contains\<close> did not find
  just before the call, and the sum of the values that \<^verbatim>\<open>erase\<close> returned.
\<close>

fun tally :: "('k::linorder, 'v::default) call list \<Rightarrow> ('k, 'v) PooledMap
    \<Rightarrow> (nat \<times> nat) option" where
  "tally [] s = Some (0, 0)"
| "tally (Upsert k # cs) s = do {
     b \<leftarrow> contains k s;
     s \<leftarrow> apply_call (Upsert k) s;
     (i, d) \<leftarrow> tally cs s;
     Some ((if b then 0 else 1) + i, d) }"
| "tally (Assign k v # cs) s = do {
     b \<leftarrow> contains k s;
     s \<leftarrow> apply_call (Assign k v) s;
     (i, d) \<leftarrow> tally cs s;
     Some ((if b then 0 else 1) + i, d) }"
| "tally (Erase k # cs) s = do {
     (m, s) \<leftarrow> erase k s;
     (i, d) \<leftarrow> tally cs s;
     Some (i, m + d) }"

lemma upsert_call_size:
  assumes "map_inv s t"
  shows "\<exists>s' t'. apply_call (Upsert k) s = Some s' \<and> map_inv s' t' \<and>
      size_m s' = size_m s + (if k \<in> set (keys t) then 0 else 1)"
  using upsert_inv[OF assms, of k] by auto

lemma assign_call_size:
  assumes "map_inv s t"
  shows "\<exists>s' t'. apply_call (Assign k v) s = Some s' \<and> map_inv s' t' \<and>
      size_m s' = size_m s + (if k \<in> set (keys t) then 0 else 1)"
proof -
  obtain a v0 s1 t1 where u: "operator_index k s = Some (Some a, s1)" "map_inv s1 t1"
    "(a, k, v0) \<in> set (inorder t1)"
    "size_m s1 = size_m s + (if k \<in> set (keys t) then 0 else 1)"
    using upsert_inv[OF assms, of k] by blast
  obtain t2 where "set_val (Some a) v s1 = Some (state_of t2 (pool s1) (size_m s1))"
    "map_inv (state_of t2 (pool s1) (size_m s1)) t2"
    using assign_inv[OF u(2,3), of v] by blast
  then show ?thesis using u(1,4) by auto
qed

lemma tally_inv:
  "map_inv s t \<Longrightarrow>
   \<exists>s' t' i d. run cs s = Some s' \<and> map_inv s' t' \<and> tally cs s = Some (i, d) \<and>
     size_m s' + d = size_m s + i"
proof (induction cs arbitrary: s t)
  case Nil
  then show ?case by auto
next
  case (Cons c cs)
  show ?case
  proof (cases c)
    case (Upsert k)
    obtain s1 t1 where a: "apply_call (Upsert k) s = Some s1" "map_inv s1 t1"
      "size_m s1 = size_m s + (if k \<in> set (keys t) then 0 else 1)"
      using upsert_call_size[OF Cons.prems, of k] by blast
    obtain s' t' i d where r: "run cs s1 = Some s'" "map_inv s' t'" "tally cs s1 = Some (i, d)"
      "size_m s' + d = size_m s1 + i"
      using Cons.IH[OF a(2)] by blast
    have "contains k s = Some (k \<in> set (keys t))" using Cons.prems by (rule contains_inv)
    then have "tally (c # cs) s = Some ((if k \<in> set (keys t) then 0 else 1) + i, d)"
      using a(1) r(3) Upsert by simp
    moreover have "run (c # cs) s = Some s'" using a(1) r(1) Upsert by simp
    ultimately show ?thesis using r(2,4) a(3) by auto
  next
    case (Assign k v)
    obtain s1 t1 where a: "apply_call (Assign k v) s = Some s1" "map_inv s1 t1"
      "size_m s1 = size_m s + (if k \<in> set (keys t) then 0 else 1)"
      using assign_call_size[OF Cons.prems, of k v] by blast
    obtain s' t' i d where r: "run cs s1 = Some s'" "map_inv s' t'" "tally cs s1 = Some (i, d)"
      "size_m s' + d = size_m s1 + i"
      using Cons.IH[OF a(2)] by blast
    have "contains k s = Some (k \<in> set (keys t))" using Cons.prems by (rule contains_inv)
    then have "tally (c # cs) s = Some ((if k \<in> set (keys t) then 0 else 1) + i, d)"
      using a(1) r(3) Assign by simp
    moreover have "run (c # cs) s = Some s'" using a(1) r(1) Assign by simp
    ultimately show ?thesis using r(2,4) a(3) by auto
  next
    case (Erase k)
    obtain m s1 t1 where a: "erase k s = Some (m, s1)" "map_inv s1 t1" "size_m s1 + m = size_m s"
      using erase_inv[OF Cons.prems, of k] by blast
    obtain s' t' i d where r: "run cs s1 = Some s'" "map_inv s' t'" "tally cs s1 = Some (i, d)"
      "size_m s' + d = size_m s1 + i"
      using Cons.IH[OF a(2)] by blast
    have "tally (c # cs) s = Some (i, m + d)" using a(1) r(3) Erase by simp
    moreover have "run (c # cs) s = Some s'" using a(1) r(1) Erase by simp
    ultimately show ?thesis using r(2,4) a(3) by auto
  qed
qed

text \<open>
  Claim C6, as the spec has it, fails: after \<^verbatim>\<open>m[1]\<close>, \<^verbatim>\<open>erase(1)\<close>, \<^verbatim>\<open>m[1]\<close> the size is
  one, but one distinct key was ever upserted and one erase succeeded, which makes zero.
\<close>

theorem size_is_not_distinct_minus_erased:
  "map_option size_of (run [Upsert (1::int), Erase 1, Upsert 1] (empty_map 4 :: (int, int) PooledMap))
     = Some 1 \<and>
   map_option (minus (length (remdups (upserted_keys [Upsert (1::int), Erase 1, Upsert 1 :: (int, int) call]))))
     (map_option snd (tally [Upsert (1::int), Erase 1, Upsert 1] (empty_map 4 :: (int, int) PooledMap)))
     = Some 0"
  by code_simp

text \<open>
  Claim C6, as the code has it. After every sequence of calls on an empty map, \<^verbatim>\<open>size()\<close>
  is the number of \<^verbatim>\<open>operator[]\<close> calls that found their key absent minus the number of
  successful erases, and it is the number of entries that \<^verbatim>\<open>for_each\<close> enumerates.
\<close>

theorem size_is_inserted_minus_erased:
  "\<exists>s t i d. run cs (empty_map cap) = Some s \<and> holds s t \<and>
     tally cs (empty_map cap) = Some (i, d) \<and> d \<le> i \<and> size_of s = i - d \<and>
     for_each record_visitor [] s = Some (entries t, s) \<and> size_of s = length (entries t)"
proof -
  obtain s t i d where r: "run cs (empty_map cap) = Some s" "map_inv s t"
    "tally cs (empty_map cap) = Some (i, d)" "size_m s + d = i"
    using tally_inv[OF map_inv_empty, of cs cap] by (auto simp: empty_map_def)
  have "size_m s + d = i" using r(4) .
  then have "d \<le> i" "size_of s = i - d" by (simp_all add: size_of_def)
  moreover have "size_of s = length (entries t)"
    using r(2) by (simp add: map_inv_def size_of_def entries_def addrs_inorder)
  ultimately show ?thesis using r(1,2,3) for_each_record[OF r(2)] by (auto simp: map_inv_def)
qed

theorem size_is_inserted_minus_erased_witness:
  "map_option size_of
     (run [Upsert (1::int), Erase 1, Upsert 1, Erase 7] (empty_map 4 :: (int, int) PooledMap))
     = Some 1 \<and>
   tally [Upsert (1::int), Erase 1, Upsert 1, Erase 7] (empty_map 4 :: (int, int) PooledMap)
     = Some (2, 1) \<and>
   (\<exists>s t i d. run [Upsert (1::int), Erase 1, Upsert 1, Erase 7] (empty_map 4 :: (int, int) PooledMap)
       = Some s \<and> holds s t \<and>
     tally [Upsert (1::int), Erase 1, Upsert 1, Erase 7] (empty_map 4 :: (int, int) PooledMap)
       = Some (i, d) \<and> d \<le> i \<and> size_of s = i - d \<and>
     for_each record_visitor [] s = Some (entries t, s) \<and> size_of s = length (entries t))"
proof -
  have "map_option size_of
     (run [Upsert (1::int), Erase 1, Upsert 1, Erase 7] (empty_map 4 :: (int, int) PooledMap))
     = Some 1"
    by code_simp
  moreover have "tally [Upsert (1::int), Erase 1, Upsert 1, Erase 7]
      (empty_map 4 :: (int, int) PooledMap) = Some (2, 1)"
    by code_simp
  ultimately show ?thesis
    using size_is_inserted_minus_erased[of "[Upsert (1::int), Erase 1, Upsert 1, Erase 7]" 4]
    by blast
qed

section \<open>The sibling in the erase fixup\<close>

text \<open>
  The call \<^verbatim>\<open>fix_erase(x, x_parent)\<close> that \<^verbatim>\<open>erase(key)\<close> makes: its arguments and the
  state at the call, or \<open>None\<close> when \<^verbatim>\<open>erase\<close> makes no such call.
\<close>

definition fix_erase_args :: "'k::linorder \<Rightarrow> ('k, 'v) PooledMap
    \<Rightarrow> (ptr \<times> ptr \<times> ('k, 'v) PooledMap) option" where
  "fix_erase_args k s = do {
     z \<leftarrow> erase_loop k (root s) s;
     if z = None then None
     else do {
       (y_original_color, x, x_parent, s) \<leftarrow> erase_unlink z s;
       s \<leftarrow> recycle z s;
       let s = s\<lparr>size_m := size_m s - 1\<rparr>;
       if y_original_color = BLACK then Some (x, x_parent, s) else None } }"

text \<open>
  The variables \<^verbatim>\<open>x\<close>, \<^verbatim>\<open>x_parent\<close> and the state at the head of the loop of
  \<^verbatim>\<open>fix_erase\<close> after \<open>i\<close> passes through its body, when the loop runs that long.
\<close>

fun loop_config :: "nat \<Rightarrow> ptr \<Rightarrow> ptr \<Rightarrow> ('k, 'v) PooledMap
    \<Rightarrow> (ptr \<times> ptr \<times> ('k, 'v) PooledMap) option" where
  "loop_config 0 x x_parent s = Some (x, x_parent, s)"
| "loop_config (Suc i) x x_parent s = do {
     c \<leftarrow> fix_erase_cond x s;
     if c then do { (x, x_parent, s) \<leftarrow> fix_erase_body x x_parent s; loop_config i x x_parent s }
     else None }"

text \<open>
  The sibling \<^verbatim>\<open>w\<close> as the body first reads it: \<^verbatim>\<open>x_parent->right\<close> when
  \<^verbatim>\<open>x == x_parent->left\<close>, \<^verbatim>\<open>x_parent->left\<close> otherwise.
\<close>

definition sibling :: "ptr \<Rightarrow> ptr \<Rightarrow> ('k, 'v) PooledMap \<Rightarrow> ptr option" where
  "sibling x x_parent s = do {
     xpl \<leftarrow> load left x_parent s;
     if x = xpl then load right x_parent s else load left x_parent s }"

text \<open>The loop head of \<^verbatim>\<open>fix_erase\<close>, seen as a position in a tree.\<close>

definition fixup_config :: "ptr \<Rightarrow> ptr \<Rightarrow> ('k, 'v) PooledMap \<Rightarrow> bool" where
  "fixup_config x xp s \<longleftrightarrow>
     (\<exists>c t p n. s = state_of (plug c t) p n \<and> x = ptr_of t \<and> (c \<noteq> [] \<longrightarrow> xp = cpar c) \<and>
        distinct (addrs (plug c t)) \<and> del_inv c t)"

lemma fix_erase_args_config:
  assumes "map_inv s t" "fix_erase_args k s = Some (x, xp, s1)"
  shows "fixup_config x xp s1"
proof (cases k t rule: descend_cases)
  case (absent c)
  have d: "distinct (addrs t)" using assms(1) by (simp add: map_inv_def holds_def)
  have "erase_loop k (root (state_of t (pool s) (size_m s))) (state_of t (pool s) (size_m s))
      = Some None"
    using erase_loop_refines[of "[]" t k "pool s" "size_m s"] d absent by simp
  then have "erase_loop k (root s) s = Some None"
    by (simp add: map_inv_state_of[OF assms(1), symmetric])
  then show ?thesis using assms(2) by (simp add: fix_erase_args_def)
next
  case (present c l z v col r)
  let ?Z = "Nd l z k v col r"
  let ?p = "pool s" and ?n = "size_m s"
  have d: "distinct (addrs t)" and rb: "rbt t"
    using assms(1) by (simp_all add: map_inv_def holds_def)
  have t: "t = plug c ?Z" using plug_descend[OF present] by simp
  have dz: "distinct (addrs (plug c ?Z))" using d t by simp
  have rz: "rbt (plug c ?Z)" using rb t by simp
  obtain yc c' x0 where u: "unlink c ?Z = Some (yc, c', x0)"
    using unlink_total[of c l z k v col r] by blast
  obtain cell where eu: "erase_unlink (Some z) (state_of t ?p ?n)
      = Some (yc, ptr_of x0, cpar c', state_g (plug c' x0) z cell ?p ?n)"
    using erase_unlink_refines[OF dz u, of ?p ?n] unfolding t by blast
  have ix: "inorder (plug c' x0) = cbefore c @ inorder l @ inorder r @ cafter c"
    using u by (rule unlink_inorder)
  have "addrs t = map fst (cbefore c) @ addrs l @ z # addrs r @ map fst (cafter c)"
    unfolding t by (simp add: addrs_inorder inorder_plug)
  moreover have "addrs (plug c' x0) = map fst (cbefore c) @ addrs l @ addrs r @ map fst (cafter c)"
    unfolding addrs_inorder ix by (simp add: addrs_inorder)
  ultimately have dx: "distinct (addrs (plug c' x0))" and nz: "z \<notin> set (addrs (plug c' x0))"
    using d by auto
  have rc: "recycle (Some z) (state_g (plug c' x0) z cell ?p ?n)
      = Some (state_of (plug c' x0) (pool_recycle z ?p) ?n)"
    using nz by (rule recycle_state_g)
  have lp: "erase_loop k (root (state_of t ?p ?n)) (state_of t ?p ?n) = Some (Some z)"
    using erase_loop_refines[of "[]" t k ?p ?n] d present by simp
  have "fix_erase_args k (state_of t ?p ?n)
      = (if yc = BLACK
         then Some (ptr_of x0, cpar c', state_of (plug c' x0) (pool_recycle z ?p) (?n - 1))
         else None)"
    using lp eu rc by (simp add: fix_erase_args_def)
  then have "fix_erase_args k s
      = (if yc = BLACK
         then Some (ptr_of x0, cpar c', state_of (plug c' x0) (pool_recycle z ?p) (?n - 1))
         else None)"
    by (simp add: map_inv_state_of[OF assms(1), symmetric])
  then have e: "yc = BLACK" "x = ptr_of x0" "xp = cpar c'"
    "s1 = state_of (plug c' x0) (pool_recycle z ?p) (?n - 1)"
    using assms(2) by (auto split: if_splits)
  have "del_inv c' x0" using unlink_inv[OF rz u] e(1) by simp
  then show ?thesis unfolding fixup_config_def using e dx by blast
qed

lemma fixup_config_step:
  assumes "fixup_config x xp s" "fix_erase_cond x s = Some True"
  shows "(\<exists>w. sibling x xp s = Some (Some w)) \<and>
         (\<exists>x' xp' s'. fix_erase_body x xp s = Some (x', xp', s') \<and> fixup_config x' xp' s')"
proof -
  obtain c t p n where g: "s = state_of (plug c t) p n" "x = ptr_of t" "c \<noteq> [] \<longrightarrow> xp = cpar c"
    "distinct (addrs (plug c t))" "del_inv c t"
    using assms(1) unfolding fixup_config_def by blast
  have "fix_erase_cond (ptr_of t) (state_of (plug c t) p n) = Some (c \<noteq> [] \<and> rcolor t = BLACK)"
    using g(4) by (rule fix_erase_cond_state)
  then have en: "c \<noteq> []" "rcolor t = BLACK" using assms(2) g(1,2) by auto
  obtain f c0 where c: "c = f # c0" using en(1) by (cases c) auto
  have xp: "xp = Some (faddr f)" using g(3) c by simp
  obtain xp1 c1 t1 where st: "del_step c t = Some (xp1, c1, t1)" and i1: "del_inv c1 t1"
    using del_step_inv[OF g(5) en] by blast
  have body: "fix_erase_body x xp s = Some (ptr_of t1, xp1, state_of (plug c1 t1) p n)"
    using fix_erase_body_refines[of f c0 t xp1 c1 t1 p n] g(4) st unfolding c xp g(1,2) by simp
  have "addrs (plug c1 t1) = addrs (plug c t)"
    using del_step_inorder[OF st] by (rule inorder_eq_addrs)
  then have d1: "distinct (addrs (plug c1 t1))" using g(4) by simp
  have p1: "c1 \<noteq> [] \<longrightarrow> xp1 = cpar c1" using del_step_parent[OF st] by simp
  have cfg: "fixup_config (ptr_of t1) xp1 (state_of (plug c1 t1) p n)"
    unfolding fixup_config_def using d1 p1 i1 by blast
  have "cbal (f # c0) (bh t + 1)" using g(5) c by (simp add: del_inv_def)
  then have "fsib f \<noteq> Lf" by (auto dest: bh_pos_nonleaf[OF sym])
  then obtain wl wa kw vw cw wr where w: "fsib f = Nd wl wa kw vw cw wr" by (cases "fsib f") auto
  have "wa \<notin> set (addrs t)" using g(4) w unfolding c by (cases f) auto
  then have ne: "ptr_of t \<noteq> Some wa" by simp
  have nd: "nodup (addrs (plug (f # c0) t))" using g(4) c by (simp only: nodup_def)
  have "sibling x xp s = Some (Some wa)"
    using nd w ne unfolding c xp g(1,2)
    by (cases f) (simp_all add: sibling_def load_at_E addrs_plug_nf)
  then show ?thesis using body cfg by blast
qed

lemma loop_config_inv:
  "fixup_config x xp s \<Longrightarrow> loop_config i x xp s = Some (x', xp', s') \<Longrightarrow> fixup_config x' xp' s'"
proof (induction i arbitrary: x xp s)
  case 0
  then show ?case by simp
next
  case (Suc i)
  have c: "fix_erase_cond x s = Some True"
    using Suc.prems(2) by (auto split: bind_splits if_splits)
  obtain x1 xp1 s1 where b: "fix_erase_body x xp s = Some (x1, xp1, s1)"
    and g1: "fixup_config x1 xp1 s1"
    using fixup_config_step[OF Suc.prems(1) c] by blast
  have "loop_config i x1 xp1 s1 = Some (x', xp', s')" using Suc.prems(2) c b by simp
  then show ?case using Suc.IH[OF g1] by simp
qed

lemma erase_calls_fix_erase:
  assumes "fix_erase_args k s = Some (x, xp, s1)"
  shows "erase k s = Option.bind (fix_erase x xp s1) (\<lambda>s'. Some (1, s'))"
  using assms
  by (auto simp: fix_erase_args_def erase_def Let_def split: bind_splits if_splits)

lemma loop_config_loop:
  "loop_config i x xp s = Some (x', xp', s') \<Longrightarrow>
   fix_erase_loop x xp s = fix_erase_loop x' xp' s'"
proof (induction i arbitrary: x xp s)
  case 0
  then show ?case by simp
next
  case (Suc i)
  have c: "fix_erase_cond x s = Some True"
    using Suc.prems by (auto split: bind_splits if_splits)
  obtain x1 xp1 s1 where b: "fix_erase_body x xp s = Some (x1, xp1, s1)"
    and l: "loop_config i x1 xp1 s1 = Some (x', xp', s')"
    using Suc.prems c by (auto split: bind_splits)
  have "fix_erase_loop x xp s = fix_erase_loop x1 xp1 s1"
    using c b by (subst fix_erase_loop.simps) simp
  then show ?case using Suc.IH[OF l] by simp
qed

text \<open>
  Claim C9. Every run of calls on an empty map returns, and in the state it reaches every
  \<^verbatim>\<open>erase\<close> returns. Take a key whose \<^verbatim>\<open>erase\<close> calls \<^verbatim>\<open>fix_erase\<close> in that state:
  whenever the loop of that call passes its guard and enters the body, after any number
  \<open>i\<close> of earlier passes, the sibling \<^verbatim>\<open>w\<close> is not null and the body returns, so none
  of its reads and writes goes through a null pointer.
\<close>

theorem fix_erase_sibling_non_null:
  "\<exists>s. run cs (empty_map cap) = Some s \<and>
     (\<forall>k. \<exists>m s2. erase k s = Some (m, s2)) \<and>
     (\<forall>k x xp s1 i x' xp' s'.
        fix_erase_args k s = Some (x, xp, s1) \<longrightarrow>
        loop_config i x xp s1 = Some (x', xp', s') \<longrightarrow>
        fix_erase_cond x' s' = Some True \<longrightarrow>
          erase k s = Option.bind (fix_erase x xp s1) (\<lambda>s'. Some (1, s')) \<and>
          fix_erase_loop x xp s1 = fix_erase_loop x' xp' s' \<and>
          (\<exists>w. sibling x' xp' s' = Some (Some w)) \<and>
          (\<exists>r. fix_erase_body x' xp' s' = Some r))"
proof -
  obtain s t where r: "run cs (empty_map cap) = Some s" and i: "map_inv s t"
    using reachable_inv by blast
  have er: "\<forall>k. \<exists>m s2. erase k s = Some (m, s2)" using erase_inv[OF i] by blast
  have "erase k s = Option.bind (fix_erase x xp s1) (\<lambda>s'. Some (1, s')) \<and>
        fix_erase_loop x xp s1 = fix_erase_loop x' xp' s' \<and>
        (\<exists>w. sibling x' xp' s' = Some (Some w)) \<and>
        (\<exists>r. fix_erase_body x' xp' s' = Some r)"
    if a: "fix_erase_args k s = Some (x, xp, s1)"
      and l: "loop_config i x xp s1 = Some (x', xp', s')"
      and c: "fix_erase_cond x' s' = Some True"
    for k x xp s1 i x' xp' s'
  proof -
    have g: "fixup_config x xp s1" using i a by (rule fix_erase_args_config)
    have g': "fixup_config x' xp' s'" using g l by (rule loop_config_inv)
    show ?thesis
      using fixup_config_step[OF g' c] erase_calls_fix_erase[OF a] loop_config_loop[OF l]
      by blast
  qed
  then show ?thesis using r er by blast
qed

theorem fix_erase_sibling_non_null_witness:
  "\<exists>s x xp s1.
     run [Upsert (1::int), Upsert 2, Upsert 3, Upsert 4] (empty_map 4 :: (int, int) PooledMap)
       = Some s \<and>
     fix_erase_args 1 s = Some (x, xp, s1) \<and> x = None \<and> xp = Some 1 \<and>
     loop_config 0 x xp s1 = Some (x, xp, s1) \<and>
     fix_erase_cond x s1 = Some True \<and> sibling x xp s1 = Some (Some 2) \<and>
     (\<exists>r. fix_erase_body x xp s1 = Some r)"
proof -
  let ?cs = "[Upsert (1::int), Upsert 2, Upsert 3, Upsert 4 :: (int, int) call]"
  let ?r = "run ?cs (empty_map 4 :: (int, int) PooledMap)"
  have "map_option (\<lambda>(x, xp, s1). (x, xp, fix_erase_cond x s1, sibling x xp s1))
          (Option.bind ?r (fix_erase_args 1))
      = Some (None, Some 1, Some True, Some (Some 2))"
    by code_simp
  then obtain s x xp s1 where o: "?r = Some s" "fix_erase_args 1 s = Some (x, xp, s1)"
    "x = None" "xp = Some 1" "fix_erase_cond x s1 = Some True" "sibling x xp s1 = Some (Some 2)"
    by (auto split: bind_splits)
  have l: "loop_config 0 x xp s1 = Some (x, xp, s1)" by simp
  obtain s0 where t: "?r = Some s0"
    "\<forall>k x xp s1 i x' xp' s'.
        fix_erase_args k s0 = Some (x, xp, s1) \<longrightarrow>
        loop_config i x xp s1 = Some (x', xp', s') \<longrightarrow>
        fix_erase_cond x' s' = Some True \<longrightarrow>
          erase k s0 = Option.bind (fix_erase x xp s1) (\<lambda>s'. Some (1, s')) \<and>
          fix_erase_loop x xp s1 = fix_erase_loop x' xp' s' \<and>
          (\<exists>w. sibling x' xp' s' = Some (Some w)) \<and>
          (\<exists>r. fix_erase_body x' xp' s' = Some r)"
    using fix_erase_sibling_non_null[of ?cs 4] by blast
  have e: "s0 = s" using t(1) o(1) by simp
  have "\<exists>r. fix_erase_body x xp s1 = Some r"
    using t(2) o(2) l o(5) unfolding e by blast
  then show ?thesis using o l by blast
qed

section \<open>Reuse of pool slots\<close>

lemma run_append: "run (cs @ ds) s = Option.bind (run cs s) (run ds)"
  by (induction cs arbitrary: s) (auto split: bind_splits)

lemma keys_inorder_cong: "inorder t = inorder t' \<Longrightarrow> keys t = keys t'"
  by (simp add: keys_def)

lemma erase_many:
  "map_inv s t \<Longrightarrow> distinct es \<Longrightarrow> set es \<subseteq> set (keys t) \<Longrightarrow>
   \<exists>s' t'. run (map Erase es) s = Some s' \<and> map_inv s' t' \<and>
     set (keys t') = set (keys t) - set es \<and>
     seg_count (pool s') = seg_count (pool s) \<and> slots_used (pool s') = slots_used (pool s) \<and>
     segment_capacity (pool s') = segment_capacity (pool s) \<and>
     length (free_list (pool s')) = length (free_list (pool s)) + length es"
proof (induction es arbitrary: s t)
  case Nil
  then show ?case by auto
next
  case (Cons k es)
  have kin: "k \<in> set (keys t)" using Cons.prems(3) by simp
  obtain xs z v ys t1 where e: "inorder t = xs @ (z, k, v) # ys" "inorder t1 = xs @ ys"
    "erase k s = Some (1, state_of t1 (pool_recycle z (pool s)) (size_m s - 1))"
    "map_inv (state_of t1 (pool_recycle z (pool s)) (size_m s - 1)) t1"
    using erase_inv_present[OF Cons.prems(1) kin] by blast
  let ?s1 = "state_of t1 (pool_recycle z (pool s)) (size_m s - 1)"
  have "distinct (keys t)" using Cons.prems(1) by (simp add: map_inv_def bst_distinct_keys)
  then have k1: "set (keys t1) = set (keys t) - {k}"
    unfolding keys_def e(1,2) by auto
  have sub: "set es \<subseteq> set (keys t1)" using Cons.prems(2,3) k1 by auto
  obtain s' t' where r: "run (map Erase es) ?s1 = Some s'" "map_inv s' t'"
    "set (keys t') = set (keys t1) - set es"
    "seg_count (pool s') = seg_count (pool ?s1)" "slots_used (pool s') = slots_used (pool ?s1)"
    "segment_capacity (pool s') = segment_capacity (pool ?s1)"
    "length (free_list (pool s')) = length (free_list (pool ?s1)) + length es"
    using Cons.IH[OF e(4) _ sub] Cons.prems(2) by auto
  have "run (map Erase (k # es)) s = Some s'" using e(3) r(1) by simp
  moreover have "set (keys t') = set (keys t) - set (k # es)" using r(3) k1 by auto
  ultimately show ?case using r(2,4,5,6,7) by (auto simp: pool_recycle_def)
qed

lemma upsert_many:
  "map_inv s t \<Longrightarrow> distinct ns \<Longrightarrow> set ns \<inter> set (keys t) = {} \<Longrightarrow>
   length ns \<le> length (free_list (pool s)) \<Longrightarrow>
   \<exists>s' t'. run (map Upsert ns) s = Some s' \<and> map_inv s' t' \<and>
     set (keys t') = set (keys t) \<union> set ns \<and>
     seg_count (pool s') = seg_count (pool s) \<and> slots_used (pool s') = slots_used (pool s) \<and>
     segment_capacity (pool s') = segment_capacity (pool s) \<and>
     length (free_list (pool s')) + length ns = length (free_list (pool s))"
proof (induction ns arbitrary: s t)
  case Nil
  then show ?case by auto
next
  case (Cons k ns)
  have kn: "k \<notin> set (keys t)" using Cons.prems(3) by simp
  obtain c a P' t1 where u: "pool_create (pool s) = (a, P')"
    "operator_index k s = Some (Some a, state_of t1 P' (size_m s + 1))"
    "map_inv (state_of t1 P' (size_m s + 1)) t1"
    "inorder t1 = inorder (plug c (Nd Lf a k default RED Lf))" "plug c Lf = t"
    using upsert_inv_absent[OF Cons.prems(1) kn] by blast
  let ?s1 = "state_of t1 P' (size_m s + 1)"
  obtain b fl where fl: "free_list (pool s) = b # fl" using Cons.prems(4) by (cases "free_list (pool s)") auto
  then have P': "P' = (pool s)\<lparr>free_list := fl\<rparr>" using u(1) by (simp add: pool_create_def)
  have "keys t1 = keys (plug c (Nd Lf a k default RED Lf))" using u(4) by (rule keys_inorder_cong)
  moreover have "set (keys (plug c (Nd Lf a k default RED Lf))) = insert k (set (keys (plug c Lf)))"
    by (simp add: keys_plug)
  ultimately have k1: "set (keys t1) = insert k (set (keys t))"
    using u(5) by simp
  have dj: "set ns \<inter> set (keys t1) = {}" using Cons.prems(2,3) k1 by auto
  have ln: "length ns \<le> length (free_list (pool ?s1))" using Cons.prems(4) fl P' by simp
  obtain s' t' where r: "run (map Upsert ns) ?s1 = Some s'" "map_inv s' t'"
    "set (keys t') = set (keys t1) \<union> set ns"
    "seg_count (pool s') = seg_count (pool ?s1)" "slots_used (pool s') = slots_used (pool ?s1)"
    "segment_capacity (pool s') = segment_capacity (pool ?s1)"
    "length (free_list (pool s')) + length ns = length (free_list (pool ?s1))"
    using Cons.IH[OF u(3) _ dj ln] Cons.prems(2) by auto
  have "run (map Upsert (k # ns)) s = Some s'" using u(2) r(1) by simp
  moreover have "set (keys t') = set (keys t) \<union> set (k # ns)" using r(3) k1 by auto
  ultimately show ?case using r(2,4,5,6,7) fl P' by auto
qed

text \<open>
  Claim C10. Node creation takes its slot from the free list when that is not empty;
  otherwise from the current segment when it has room; otherwise from a new segment. So
  on every well-formed map state, erasing the distinct present keys \<open>es\<close> and then
  upserting at most as many distinct new keys \<open>ns\<close> returns, and allocates no segment
  and no fresh slot: the freed slots serve all the new nodes.
\<close>

theorem pool_reuses_freed_slots:
  assumes "map_inv s t" and "distinct es" and "set es \<subseteq> set (keys t)"
    and "distinct ns" and "set ns \<inter> (set (keys t) - set es) = {}"
    and "length ns \<le> length es"
  shows "(case free_list p of
            a # fl \<Rightarrow> pool_create p = (a, p\<lparr>free_list := fl\<rparr>)
          | [] \<Rightarrow>
              if slots_used p < seg_count p * segment_capacity p
              then pool_create p = (slots_used p, p\<lparr>slots_used := slots_used p + 1\<rparr>)
              else pool_create p =
                (slots_used p, p\<lparr>seg_count := seg_count p + 1, slots_used := slots_used p + 1\<rparr>)) \<and>
         (\<exists>s'. run (map Erase es @ map Upsert ns) s = Some s' \<and>
            seg_count (pool s') = seg_count (pool s) \<and>
            slots_used (pool s') = slots_used (pool s) \<and>
            length (free_list (pool s')) + length ns = length (free_list (pool s)) + length es)"
proof -
  have pc: "case free_list p of
            a # fl \<Rightarrow> pool_create p = (a, p\<lparr>free_list := fl\<rparr>)
          | [] \<Rightarrow>
              if slots_used p < seg_count p * segment_capacity p
              then pool_create p = (slots_used p, p\<lparr>slots_used := slots_used p + 1\<rparr>)
              else pool_create p =
                (slots_used p, p\<lparr>seg_count := seg_count p + 1, slots_used := slots_used p + 1\<rparr>)"
    by (simp add: pool_create_def split: list.splits)
  obtain s1 t1 where e: "run (map Erase es) s = Some s1" "map_inv s1 t1"
    "set (keys t1) = set (keys t) - set es"
    "seg_count (pool s1) = seg_count (pool s)" "slots_used (pool s1) = slots_used (pool s)"
    "length (free_list (pool s1)) = length (free_list (pool s)) + length es"
    using erase_many[OF assms(1-3)] by blast
  have dj: "set ns \<inter> set (keys t1) = {}" using assms(5) e(3) by simp
  have ln: "length ns \<le> length (free_list (pool s1))" using assms(6) e(6) by simp
  obtain s2 t2 where u: "run (map Upsert ns) s1 = Some s2"
    "seg_count (pool s2) = seg_count (pool s1)" "slots_used (pool s2) = slots_used (pool s1)"
    "length (free_list (pool s2)) + length ns = length (free_list (pool s1))"
    using upsert_many[OF e(2) assms(4) dj ln] by blast
  have "run (map Erase es @ map Upsert ns) s = Some s2" using e(1) u(1) by (simp add: run_append)
  then show ?thesis using pc e(4,5,6) u(2,3,4) by auto
qed

theorem pool_reuses_freed_slots_witness:
  "map_inv (state_of (Nd (Nd Lf 1 (1::int) (7::int) RED Lf) 0 2 0 BLACK Lf)
             \<lparr>free_list = [], seg_count = 1, slots_used = 2, segment_capacity = 2\<rparr> 2)
           (Nd (Nd Lf 1 1 7 RED Lf) 0 2 0 BLACK Lf) \<and>
   pool_create \<lparr>free_list = [1, 0], seg_count = 1, slots_used = 2, segment_capacity = 2\<rparr>
     = (1, \<lparr>free_list = [0], seg_count = 1, slots_used = 2, segment_capacity = 2\<rparr>) \<and>
   (\<exists>s'. run (map Erase [2, 1] @ map Upsert [5, 6])
        (state_of (Nd (Nd Lf 1 (1::int) (7::int) RED Lf) 0 2 0 BLACK Lf)
           \<lparr>free_list = [], seg_count = 1, slots_used = 2, segment_capacity = 2\<rparr> 2) = Some s' \<and>
      seg_count (pool s') = 1 \<and> slots_used (pool s') = 2 \<and> free_list (pool s') = [])"
proof -
  let ?t = "Nd (Nd Lf 1 (1::int) (7::int) RED Lf) 0 2 0 BLACK Lf"
  let ?s = "state_of ?t \<lparr>free_list = [], seg_count = 1, slots_used = 2, segment_capacity = 2\<rparr> 2"
  have i: "map_inv ?s ?t"
    by (rule map_inv_state_ofI) (simp_all add: rbt_def bst_def pool_ok_def)
  show ?thesis
    using i pool_reuses_freed_slots[OF i, of "[2, 1]" "[5, 6]"
        "\<lparr>free_list = [1, 0], seg_count = 1, slots_used = 2, segment_capacity = 2\<rparr>"]
    by auto
qed

end
